theory Spec2Isabelle
  imports Complex_Main "HOL-Library.AList" "HOL-Library.Multiset"
begin

section \<open>The negative sampler (recbox/sampler/sampler.py)\<close>

subsection \<open>Data\<close>

text \<open>
  Every \<^verbatim>\<open>raise\<close> of the sampler, and every exception the runtime raises inside it, is a
  value. The two lookup errors and the two configuration errors carry the offending value
  that the source formats into the message.
\<close>

datatype error =
    ValueError_distribution string
  | ValueError_length
  | ValueError_phase string
  | ValueError_user_id int
  | NotImplementedError_distribution string
  | NotImplementedError_loss_type
  | KeyError
  | IndexError
  | ZeroDivisionError

text \<open>
  The dataset collaborator: \<^verbatim>\<open>user_num\<close>, \<^verbatim>\<open>item_num\<close> and the interaction table, read
  through the two configured columns \<^verbatim>\<open>inter_feat[[uid_field, iid_field]].values\<close>, that
  is, as rows \<open>(uid, iid)\<close>.
\<close>

record dataset =
  user_num :: int
  item_num :: int
  inter_feat :: "(int \<times> int) list"

text \<open>An argument that is either a list or a single value (\<^verbatim>\<open>isinstance(x, list)\<close>).\<close>

datatype 'a arg = Single 'a | Listed "'a list"

fun as_list :: "'a arg \<Rightarrow> 'a list" where
  "as_list (Single x) = [x]"
| "as_list (Listed xs) = xs"

text \<open>
  The object's attributes. \<^verbatim>\<open>used_item_id\<close> is a dict from phase name to an array of sets,
  one per user; it is kept as an association list read with \<^const>\<open>map_of\<close>.
\<close>

record sampler =
  phases :: "string list"
  datasets :: "dataset list"
  n_users :: int
  n_items :: int
  random_item_list :: "int list"
  random_pr :: nat
  random_item_list_length :: nat
  used_item_id :: "(string \<times> int set list) list"

text \<open>What \<^verbatim>\<open>sample_by_user_ids\<close> hands back: the array, or Python's \<^verbatim>\<open>None\<close> when an
  except branch falls through.\<close>

datatype pyresult = PyNone | Array "int list"

subsection \<open>Array indexing\<close>

text \<open>
  Indexing an array of length \<open>n\<close> with an integer: an index in \<open>[-n, 0)\<close> counts from the
  end, anything outside \<open>[-n, n)\<close> is an \<^verbatim>\<open>IndexError\<close>.
\<close>

definition np_pos :: "nat \<Rightarrow> int \<Rightarrow> error + nat" where
  "np_pos n i =
     (if - int n \<le> i \<and> i < int n then Inr (nat (if i < 0 then i + int n else i))
      else Inl IndexError)"

definition np_index :: "'a list \<Rightarrow> int \<Rightarrow> error + 'a" where
  "np_index xs i = (case np_pos (length xs) i of Inl e \<Rightarrow> Inl e | Inr j \<Rightarrow> Inr (xs ! j))"

text \<open>\<^verbatim>\<open>arr[user_ids]\<close> with a list of indices: one row per index, or the first error.\<close>

fun fancy_index :: "'a list \<Rightarrow> int list \<Rightarrow> error + 'a list" where
  "fancy_index rows [] = Inr []"
| "fancy_index rows (u # us) =
     (case np_index rows u of
        Inl e \<Rightarrow> Inl e
      | Inr r \<Rightarrow> (case fancy_index rows us of Inl e \<Rightarrow> Inl e | Inr rs \<Rightarrow> Inr (r # rs)))"

subsection \<open>Construction\<close>

definition legal_distribution :: "string set" where
  "legal_distribution = {''uniform'', ''popularity''}"

text \<open>Lines 38 to 45: the pool before it is shuffled.\<close>

definition build_pool :: "string \<Rightarrow> int \<Rightarrow> dataset list \<Rightarrow> error + int list" where
  "build_pool distribution n ds =
     (if distribution = ''uniform'' then Inr [0..n - 1]
      else if distribution = ''popularity''
        then Inr (concat (map (\<lambda>d. map snd (inter_feat d)) ds))
      else Inl (NotImplementedError_distribution distribution))"

text \<open>\<^verbatim>\<open>cur[uid].add(iid)\<close> on the array of sets.\<close>

definition add_used :: "int set list \<Rightarrow> int \<times> int \<Rightarrow> error + int set list" where
  "add_used cur row =
     (case np_pos (length cur) (fst row) of
        Inl e \<Rightarrow> Inl e
      | Inr j \<Rightarrow> Inr (cur[j := insert (snd row) (cur ! j)]))"

fun add_all :: "int set list \<Rightarrow> (int \<times> int) list \<Rightarrow> error + int set list" where
  "add_all cur [] = Inr cur"
| "add_all cur (row # rest) =
     (case add_used cur row of Inl e \<Rightarrow> Inl e | Inr cur' \<Rightarrow> add_all cur' rest)"

text \<open>
  Lines 53 to 57: each phase starts from a copy of the previous phase's sets, adds its own
  interactions and is stored under its name (a later phase of the same name replaces it).
\<close>

fun build_used ::
  "int set list \<Rightarrow> (string \<times> int set list) list \<Rightarrow> (string \<times> dataset) list
     \<Rightarrow> error + (string \<times> int set list) list" where
  "build_used last' used [] = Inr used"
| "build_used last' used ((phase, d) # rest) =
     (case add_all last' (inter_feat d) of
        Inl e \<Rightarrow> Inl e
      | Inr cur \<Rightarrow> build_used cur (AList.update phase cur used) rest)"

text \<open>
  \<^verbatim>\<open>Sampler.__init__\<close>. The random permutation that \<^verbatim>\<open>random.shuffle\<close> applies is the
  parameter \<open>shuffle\<close>.
\<close>

definition init ::
  "(int list \<Rightarrow> int list) \<Rightarrow> string arg \<Rightarrow> dataset arg \<Rightarrow> string \<Rightarrow> error + sampler" where
  "init shuffle phases0 datasets0 distribution =
     (if distribution \<notin> legal_distribution then Inl (ValueError_distribution distribution)
      else
        let ps = as_list phases0; ds = as_list datasets0 in
        if length ps \<noteq> length ds then Inl ValueError_length
        else
          case ds of
            [] \<Rightarrow> Inl IndexError
          | d0 # _ \<Rightarrow>
              (case build_pool distribution (item_num d0) ds of
                 Inl e \<Rightarrow> Inl e
               | Inr pool0 \<Rightarrow>
                   let pool = shuffle pool0 in
                   (case build_used (replicate (nat (user_num d0)) {}) [] (zip ps ds) of
                      Inl e \<Rightarrow> Inl e
                    | Inr used \<Rightarrow>
                        Inr \<lparr>phases = ps, datasets = ds,
                             n_users = user_num d0, n_items = item_num d0,
                             random_item_list = pool, random_pr = 0,
                             random_item_list_length = length pool,
                             used_item_id = used\<rparr>)))"

subsection \<open>Sampling\<close>

text \<open>\<^verbatim>\<open>random_item\<close>: read the pool at the cursor modulo its length, then advance the cursor.\<close>

definition random_item :: "sampler \<Rightarrow> (error + int) \<times> sampler" where
  "random_item s =
     (if random_item_list_length s = 0 then (Inl ZeroDivisionError, s)
      else
        let j = random_pr s mod random_item_list_length s in
        if j < length (random_item_list s)
        then (Inr (random_item_list s ! j), s\<lparr>random_pr := random_pr s + 1\<rparr>)
        else (Inl IndexError, s))"

text \<open>
  Lines 72 and 73, \<^verbatim>\<open>while cur in used_item_id: cur = self.random_item()\<close>. The loop may run
  forever, so it is a partial function: \<open>None\<close> is "does not return".
\<close>

partial_function (option) resample ::
  "int set \<Rightarrow> int \<Rightarrow> sampler \<Rightarrow> ((error + int) \<times> sampler) option" where
  "resample used cur s =
     (if cur \<in> used
      then (case random_item s of
              (Inl e, s') \<Rightarrow> Some (Inl e, s')
            | (Inr c, s') \<Rightarrow> resample used c s')
      else Some (Inr cur, s))"

text \<open>Lines 71 to 73: one draw for one requested slot.\<close>

definition draw :: "int set \<Rightarrow> sampler \<Rightarrow> ((error + int) \<times> sampler) option" where
  "draw used s =
     (case random_item s of
        (Inl e, s') \<Rightarrow> Some (Inl e, s')
      | (Inr c, s') \<Rightarrow> resample used c s')"

text \<open>The \<^verbatim>\<open>for\<close> loop over the repeated seen sets, filling \<^verbatim>\<open>neg_item_id\<close> left to right.\<close>

fun sample_loop :: "int set list \<Rightarrow> sampler \<Rightarrow> ((error + int list) \<times> sampler) option" where
  "sample_loop [] s = Some (Inr [], s)"
| "sample_loop (used # rest) s =
     (case draw used s of
        None \<Rightarrow> None
      | Some (Inl e, s') \<Rightarrow> Some (Inl e, s')
      | Some (Inr c, s') \<Rightarrow>
          (case sample_loop rest s' of
             None \<Rightarrow> None
           | Some (Inl e, s'') \<Rightarrow> Some (Inl e, s'')
           | Some (Inr cs, s'') \<Rightarrow> Some (Inr (c # cs), s'')))"

text \<open>
  The body of the \<^verbatim>\<open>try\<close>. \<open>num\<close> is the repetition count handed to \<^verbatim>\<open>np.zeros\<close> and
  \<^verbatim>\<open>np.repeat\<close>, a natural number. \<^verbatim>\<open>np.repeat(rows, num)\<close> repeats each selected row \<open>num\<close>
  times in place, so slot \<open>i\<close> belongs to \<open>user_ids[i div num]\<close>.
\<close>

definition sample_body ::
  "sampler \<Rightarrow> string \<Rightarrow> int list \<Rightarrow> nat \<Rightarrow> ((error + int list) \<times> sampler) option" where
  "sample_body s phase user_ids num =
     (case map_of (used_item_id s) phase of
        None \<Rightarrow> Some (Inl KeyError, s)
      | Some rows \<Rightarrow>
          (case fancy_index rows user_ids of
             Inl e \<Rightarrow> Some (Inl e, s)
           | Inr sel \<Rightarrow> sample_loop (concat (map (replicate num) sel)) s))"

text \<open>The scan of the \<^verbatim>\<open>except IndexError\<close> branch.\<close>

fun first_bad_user :: "int \<Rightarrow> int list \<Rightarrow> int option" where
  "first_bad_user n [] = None"
| "first_bad_user n (u # us) = (if u < 0 \<or> u \<ge> n then Some u else first_bad_user n us)"

text \<open>
  \<^verbatim>\<open>sample_by_user_ids\<close>: the body, then the two \<^verbatim>\<open>except\<close> branches. Any other exception
  propagates unchanged.
\<close>

definition sample_by_user_ids ::
  "sampler \<Rightarrow> string \<Rightarrow> int list \<Rightarrow> nat \<Rightarrow> ((error + pyresult) \<times> sampler) option" where
  "sample_by_user_ids s phase user_ids num =
     (case sample_body s phase user_ids num of
        None \<Rightarrow> None
      | Some (Inr ids, s') \<Rightarrow> Some (Inr (Array ids), s')
      | Some (Inl KeyError, s') \<Rightarrow>
          (if phase \<notin> set (phases s') then Some (Inl (ValueError_phase phase), s')
           else Some (Inr PyNone, s'))
      | Some (Inl IndexError, s') \<Rightarrow>
          (case first_bad_user (n_users s') user_ids of
             Some u \<Rightarrow> Some (Inl (ValueError_user_id u), s')
           | None \<Rightarrow> Some (Inr PyNone, s'))
      | Some (Inl e, s') \<Rightarrow> Some (Inl e, s'))"

subsection \<open>Reading the sampler's state\<close>

text \<open>
  The set stored for a user under a phase, \<^verbatim>\<open>used_item_id[phase][u]\<close>, as the claims name
  it (empty where the lookup would raise).
\<close>

definition seen_set :: "sampler \<Rightarrow> string \<Rightarrow> int \<Rightarrow> int set" where
  "seen_set s phase u =
     (case map_of (used_item_id s) phase of
        None \<Rightarrow> {}
      | Some rows \<Rightarrow> (case np_index rows u of Inl e \<Rightarrow> {} | Inr r \<Rightarrow> r))"

text \<open>
  What construction establishes and sampling keeps: the stored length is the pool's length,
  the dict has exactly the declared phases as keys, every stored array has one set per
  user, and every pool entry is an item id.
\<close>

definition sampler_ok :: "sampler \<Rightarrow> bool" where
  "sampler_ok s \<longleftrightarrow>
     random_item_list_length s = length (random_item_list s) \<and>
     set (map fst (used_item_id s)) = set (phases s) \<and>
     (\<forall>rows \<in> set (map snd (used_item_id s)). length rows = nat (n_users s)) \<and>
     (\<forall>x \<in> set (random_item_list s). 0 \<le> x \<and> x < n_items s)"

text \<open>Two states that differ at most in the cursor, which has only moved forward.\<close>

definition advanced :: "sampler \<Rightarrow> sampler \<Rightarrow> bool" where
  "advanced s s' \<longleftrightarrow> (\<exists>j. s' = s\<lparr>random_pr := random_pr s + j\<rparr>)"

text \<open>
  The items a user interacted with in one dataset, and their union over the datasets of
  phases \<open>0..k\<close>.
\<close>

definition interacted :: "dataset \<Rightarrow> int \<Rightarrow> int set" where
  "interacted d u = set (map snd (filter (\<lambda>row. fst row = u) (inter_feat d)))"

definition cumulative :: "dataset list \<Rightarrow> nat \<Rightarrow> int \<Rightarrow> int set" where
  "cumulative ds k u = (\<Union>d \<in> set (take (Suc k) ds). interacted d u)"

subsection \<open>The scenario of the specification\<close>

text \<open>
  \<open>n_items = 5\<close>, \<open>n_users = 2\<close>, one phase \<^verbatim>\<open>train\<close> in which user 0 interacted with items
  1 and 2, uniform distribution; the shuffle leaves the pool in its order.
\<close>

definition scenario_dataset :: dataset where
  "scenario_dataset = \<lparr>user_num = 2, item_num = 5, inter_feat = [(0, 1), (0, 2)]\<rparr>"

definition scenario_sampler :: sampler where
  "scenario_sampler =
     \<lparr>phases = [''train''], datasets = [scenario_dataset], n_users = 2, n_items = 5,
      random_item_list = [0, 1, 2, 3, 4], random_pr = 0, random_item_list_length = 5,
      used_item_id = [(''train'', [{1, 2}, {}])]\<rparr>"

text \<open>Two phases, one user, one interaction in each phase.\<close>

definition staged_datasets :: "dataset list" where
  "staged_datasets =
     [\<lparr>user_num = 1, item_num = 4, inter_feat = [(0, 1)]\<rparr>,
      \<lparr>user_num = 1, item_num = 4, inter_feat = [(0, 2)]\<rparr>]"

definition staged_sampler :: sampler where
  "staged_sampler =
     \<lparr>phases = [''train'', ''valid''], datasets = staged_datasets,
      n_users = 1, n_items = 4,
      random_item_list = [0, 1, 2, 3], random_pr = 0, random_item_list_length = 4,
      used_item_id = [(''train'', [{1}]), (''valid'', [{1, 2}])]\<rparr>"

text \<open>
  Three phases of which the first and the last carry the same name, one user, one
  interaction in each phase.
\<close>

definition renamed_datasets :: "dataset list" where
  "renamed_datasets =
     [\<lparr>user_num = 1, item_num = 4, inter_feat = [(0, 1)]\<rparr>,
      \<lparr>user_num = 1, item_num = 4, inter_feat = [(0, 2)]\<rparr>,
      \<lparr>user_num = 1, item_num = 4, inter_feat = [(0, 3)]\<rparr>]"

definition renamed_sampler :: sampler where
  "renamed_sampler =
     \<lparr>phases = [''train'', ''valid'', ''train''], datasets = renamed_datasets,
      n_users = 1, n_items = 4,
      random_item_list = [0, 1, 2, 3], random_pr = 0, random_item_list_length = 4,
      used_item_id = [(''train'', [{1, 2, 3}]), (''valid'', [{1, 2}])]\<rparr>"

section \<open>The FISSA model (recbole/model/sequential_recommender/fissa.py)\<close>

subsection \<open>Tensors\<close>

text \<open>
  A tensor is a nested list, outermost dimension first; its entries are real numbers.
  Sums, products and differences are exact; the sigmoid of the gate is rounded as float32
  rounds it, because whether the gate can reach 0 or 1 depends on that. Shapes that the
  tensor runtime would reject are excluded by the hypotheses of the theorems.
\<close>

type_synonym vec = "real list"
type_synonym mat = "real list list"
type_synonym tensor3 = "real list list list"
type_synonym tensor4 = "real list list list list"

text \<open>\<^verbatim>\<open>torch.cat((a, b), 1)\<close> on two matrices and \<^verbatim>\<open>torch.cat((a, b), 2)\<close> on two
  rank-3 tensors.\<close>

definition cat1 :: "mat \<Rightarrow> mat \<Rightarrow> mat" where
  "cat1 a b = map2 (@) a b"

definition cat2 :: "tensor3 \<Rightarrow> tensor3 \<Rightarrow> tensor3" where
  "cat2 a b = map2 (map2 (@)) a b"

text \<open>\<^verbatim>\<open>t.size(1)\<close>.\<close>

definition size1 :: "'a list list \<Rightarrow> nat" where
  "size1 t = (case t of [] \<Rightarrow> 0 | r # _ \<Rightarrow> length r)"

text \<open>\<^verbatim>\<open>a.unsqueeze(1).repeat((1, c, 1))\<close>: each row of a \<open>[B, D]\<close> matrix, \<open>c\<close> times.\<close>

definition unsqueeze1_repeat :: "nat \<Rightarrow> mat \<Rightarrow> tensor3" where
  "unsqueeze1_repeat c a = map (replicate c) a"

text \<open>
  The elementwise product along the last dimension under broadcasting: a side of size 1 is
  stretched to the other side's size.
\<close>

definition mul_bc :: "vec \<Rightarrow> vec \<Rightarrow> vec" where
  "mul_bc a b =
     (case b of
        [g] \<Rightarrow> map (\<lambda>x. x * g) a
      | _ \<Rightarrow> (case a of [x] \<Rightarrow> map (\<lambda>g. x * g) b | _ \<Rightarrow> map2 (*) a b))"

definition mul3 :: "tensor3 \<Rightarrow> tensor3 \<Rightarrow> tensor3" where
  "mul3 a b = map2 (map2 mul_bc) a b"

definition add3 :: "tensor3 \<Rightarrow> tensor3 \<Rightarrow> tensor3" where
  "add3 a b = map2 (map2 (map2 (+))) a b"

text \<open>\<^verbatim>\<open>1 - g\<close> and \<^verbatim>\<open>torch.sum(t, dim=-1)\<close>.\<close>

definition one_minus :: "tensor3 \<Rightarrow> tensor3" where
  "one_minus g = map (map (map (\<lambda>v. 1 - v))) g"

definition sum_last :: "tensor3 \<Rightarrow> mat" where
  "sum_last t = map (map sum_list) t"

definition dot :: "vec \<Rightarrow> vec \<Rightarrow> real" where
  "dot x w = sum_list (map2 (*) x w)"

subsection \<open>The model object\<close>

datatype loss = BPRLoss | CrossEntropyLoss

text \<open>The configuration options that \<^verbatim>\<open>__init__\<close> reads and the claims depend on.\<close>

record config =
  cfg_loss_type :: string
  cfg_n_layers :: nat
  cfg_n_heads :: nat
  cfg_hidden_size :: nat
  cfg_inner_size :: nat

text \<open>
  The values the random initialisers produce: \<^verbatim>\<open>w1\<close>, \<^verbatim>\<open>w2\<close>, \<^verbatim>\<open>q_s\<close>, the weight row and
  bias of \<^verbatim>\<open>Linear(3 * D, 1)\<close>, and the two embedding tables.
\<close>

record params =
  p_w1 :: mat
  p_w2 :: mat
  p_q_s :: vec
  p_gating_weight :: vec
  p_gating_bias :: real
  p_item_embedding :: mat
  p_position_embedding :: mat

record fissa =
  loss_type :: string
  loss_fct :: loss
  D :: nat
  w1 :: mat
  w2 :: mat
  q_s :: vec
  gating_lr_weight :: vec
  gating_lr_bias :: real
  item_embedding :: mat
  position_embedding :: mat

text \<open>
  \<^verbatim>\<open>FISSA.__init__\<close>: the loss is chosen, or the constructor raises, before any parameter
  is created.
\<close>

definition fissa_init :: "config \<Rightarrow> params \<Rightarrow> error + fissa" where
  "fissa_init cfg p =
     (case (if cfg_loss_type cfg = ''BPR'' then Inr BPRLoss
            else if cfg_loss_type cfg = ''CE'' then Inr CrossEntropyLoss
            else Inl NotImplementedError_loss_type) of
        Inl e \<Rightarrow> Inl e
      | Inr l \<Rightarrow>
          Inr \<lparr>loss_type = cfg_loss_type cfg, loss_fct = l, D = cfg_hidden_size cfg,
               w1 = p_w1 p, w2 = p_w2 p, q_s = p_q_s p,
               gating_lr_weight = p_gating_weight p, gating_lr_bias = p_gating_bias p,
               item_embedding = p_item_embedding p,
               position_embedding = p_position_embedding p\<rparr>)"

subsection \<open>The fusion gate\<close>

text \<open>\<^verbatim>\<open>self.gating_lr\<close>, a linear layer with one output.\<close>

definition gating_lr :: "fissa \<Rightarrow> vec \<Rightarrow> vec" where
  "gating_lr m x = [dot x (gating_lr_weight m) + gating_lr_bias m]"

text \<open>
  Rounding to the nearest float32: the nearest integer with ties to the even one, applied
  to the value counted in units of the last place. The unit is \<open>2 ^ (e - 23)\<close> for a value
  in \<open>[2 ^ e, 2 ^ (e + 1))\<close> and stays \<open>2 ^ (- 149)\<close> below \<open>2 ^ (- 126)\<close> (gradual
  underflow). The exponent is not bounded above: a result beyond \<open>float32_max\<close> stands
  for infinity.
\<close>

definition rne :: "real \<Rightarrow> int" where
  "rne x =
     (let f = \<lfloor>x\<rfloor> in
      if x - of_int f < 1 / 2 then f
      else if 1 / 2 < x - of_int f then f + 1
      else if even f then f else f + 1)"

definition float32_round :: "real \<Rightarrow> real" where
  "float32_round x =
     (if x = 0 then 0
      else
        let e = max \<lfloor>log 2 \<bar>x\<bar>\<rfloor> (- 126);
            u = 2 powr (of_int e - 23)
        in of_int (rne (x / u)) * u)"

definition float32_max :: real where
  "float32_max = (2 - 1 / 2 ^ 23) * 2 ^ 127"

text \<open>
  \<^verbatim>\<open>self.gating_sig\<close>, \<^verbatim>\<open>torch.nn.Sigmoid\<close> on a float32 tensor: \<open>1 / (1 + exp (- x))\<close> with
  each operation rounded. When the exponential overflows the sum is infinite and the
  quotient is 0. The exponential itself is taken as correctly rounded.
\<close>

definition gating_sig :: "real \<Rightarrow> real" where
  "gating_sig x =
     (let e = float32_round (exp (- x)) in
      if float32_max < e then 0
      else float32_round (1 / float32_round (1 + e)))"

definition cal_final :: "fissa \<Rightarrow> mat \<Rightarrow> mat \<Rightarrow> mat \<Rightarrow> tensor3 \<Rightarrow> tensor3" where
  "cal_final m seq_x seq_y last_embedding candidates_embedding =
     (let isg_input = cat1 last_embedding seq_y;
          isg_input = unsqueeze1_repeat (size1 candidates_embedding) isg_input;
          isg_input = cat2 isg_input candidates_embedding;
          g = map (map (\<lambda>v. map gating_sig (gating_lr m v))) isg_input;
          seq_x_can = unsqueeze1_repeat (size1 candidates_embedding) seq_x;
          seq_y_can = unsqueeze1_repeat (size1 candidates_embedding) seq_y
      in add3 (mul3 seq_x_can g) (mul3 seq_y_can (one_minus g)))"

subsection \<open>Scoring\<close>

text \<open>An embedding lookup raises on an index outside the table.\<close>

definition embedding :: "mat \<Rightarrow> int \<Rightarrow> error + vec" where
  "embedding W i = (if 0 \<le> i \<and> i < int (length W) then Inr (W ! nat i) else Inl IndexError)"

fun map_err :: "('a \<Rightarrow> error + 'b) \<Rightarrow> 'a list \<Rightarrow> error + 'b list" where
  "map_err f [] = Inr []"
| "map_err f (x # xs) =
     (case f x of
        Inl e \<Rightarrow> Inl e
      | Inr y \<Rightarrow> (case map_err f xs of Inl e \<Rightarrow> Inl e | Inr ys \<Rightarrow> Inr (y # ys)))"

text \<open>
  \<^verbatim>\<open>predict\<close> and \<^verbatim>\<open>full_sort_predict\<close>. The encoder behind \<^verbatim>\<open>self.forward\<close> and the
  inherited \<^verbatim>\<open>gather_indexes\<close> are parameters: \<open>forward\<close> is the evaluation-mode
  function from a batch to \<open>(x_l, y)\<close>.
\<close>

definition predict ::
  "(int list list \<Rightarrow> int list \<Rightarrow> mat \<times> mat) \<Rightarrow> (tensor3 \<Rightarrow> int list \<Rightarrow> mat) \<Rightarrow> fissa
     \<Rightarrow> int list list \<Rightarrow> int list \<Rightarrow> int list \<Rightarrow> error + mat" where
  "predict forward gather_indexes m item_seq item_seq_len test_item =
     (case map_err (map_err (embedding (item_embedding m))) item_seq of
        Inl e \<Rightarrow> Inl e
      | Inr seq_emb \<Rightarrow>
          let last_item_emb = gather_indexes seq_emb (map (\<lambda>l. l - 1) item_seq_len);
              (seq_x, seq_y) = forward item_seq item_seq_len
          in (case map_err (embedding (item_embedding m)) test_item of
                Inl e \<Rightarrow> Inl e
              | Inr emb \<Rightarrow>
                  let test_item_emb = map (\<lambda>v. [v]) emb;
                      seq_output = cal_final m seq_x seq_y last_item_emb test_item_emb
                  in Inr (sum_last (mul3 seq_output test_item_emb))))"

definition full_sort_predict ::
  "(int list list \<Rightarrow> int list \<Rightarrow> mat \<times> mat) \<Rightarrow> (tensor3 \<Rightarrow> int list \<Rightarrow> mat) \<Rightarrow> fissa
     \<Rightarrow> int list list \<Rightarrow> int list \<Rightarrow> error + mat" where
  "full_sort_predict forward gather_indexes m item_seq item_seq_len =
     (case map_err (map_err (embedding (item_embedding m))) item_seq of
        Inl e \<Rightarrow> Inl e
      | Inr seq_emb \<Rightarrow>
          let last_item_emb = gather_indexes seq_emb (map (\<lambda>l. l - 1) item_seq_len);
              (seq_x, seq_y) = forward item_seq item_seq_len;
              test_items_emb = item_embedding m;
              test_items_emb_can = replicate (length seq_x) test_items_emb;
              seq_output = cal_final m seq_x seq_y last_item_emb test_items_emb_can
          in Inr (sum_last (mul3 seq_output test_items_emb_can)))"

subsection \<open>Reading the fusion and the scores\<close>

text \<open>
  The gate of one candidate, the fused vector it gives and the candidate's score, written
  for a single example and a single candidate: the right-hand sides against which the
  tensor code above is compared.
\<close>

definition gate :: "fissa \<Rightarrow> vec \<Rightarrow> vec \<Rightarrow> vec \<Rightarrow> real" where
  "gate m last_row y_row cand =
     gating_sig (dot (last_row @ y_row @ cand) (gating_lr_weight m) + gating_lr_bias m)"

definition fuse :: "real \<Rightarrow> vec \<Rightarrow> vec \<Rightarrow> vec" where
  "fuse g x_row y_row = map2 (+) (map (\<lambda>x. x * g) x_row) (map (\<lambda>y. y * (1 - g)) y_row)"

definition score :: "fissa \<Rightarrow> vec \<Rightarrow> vec \<Rightarrow> vec \<Rightarrow> vec \<Rightarrow> real" where
  "score m x_row y_row last_row cand =
     sum_list (mul_bc (fuse (gate m last_row y_row cand) x_row y_row) cand)"

subsection \<open>A small model\<close>

text \<open>
  Hidden size 1, two items, a gate with zero weights and zero bias (so every gate is
  \<open>1/2\<close>), an encoder that answers \<open>x_l = 2\<close> and \<open>y = 4\<close> for its one example.
\<close>

definition small_model :: fissa where
  "small_model =
     \<lparr>loss_type = ''BPR'', loss_fct = BPRLoss, D = 1, w1 = [[1]], w2 = [[1]], q_s = [1],
      gating_lr_weight = [0, 0, 0], gating_lr_bias = 0,
      item_embedding = [[0], [3]], position_embedding = [[0], [0]]\<rparr>"

text \<open>The same with a gate that reads the candidate: weights \<open>0, 0, 1\<close> and zero bias.\<close>

definition gated_model :: fissa where
  "gated_model =
     \<lparr>loss_type = ''BPR'', loss_fct = BPRLoss, D = 1, w1 = [[1]], w2 = [[1]], q_s = [1],
      gating_lr_weight = [0, 0, 1], gating_lr_bias = 0,
      item_embedding = [[0], [200]], position_embedding = [[0], [0]]\<rparr>"

definition small_forward :: "int list list \<Rightarrow> int list \<Rightarrow> mat \<times> mat" where
  "small_forward item_seq item_seq_len = ([[2]], [[4]])"

text \<open>
  Modelled from the spec: \<^verbatim>\<open>gather_indexes\<close> of the inherited recommender class is not
  among the sources; the specification describes it as taking, per example, the row at
  the given index.
\<close>

definition gather_rows :: "tensor3 \<Rightarrow> int list \<Rightarrow> mat" where
  "gather_rows t idx = map2 (\<lambda>rows i. rows ! nat i) t idx"

subsection \<open>The attention mask\<close>

definition get_attention_mask :: "int list list \<Rightarrow> tensor4" where
  "get_attention_mask item_seq =
     (let attention_mask = map (map (\<lambda>i. if i > 0 then (1::int) else 0)) item_seq;
          extended_attention_mask = map (\<lambda>row. [[row]]) attention_mask;
          extended_attention_mask = map (map (map (map real_of_int))) extended_attention_mask
      in map (map (map (map (\<lambda>v. (1.0 - v) * - 10000.0)))) extended_attention_mask)"

text \<open>
  The entry that an addition to the \<open>[B, H, L, L]\<close> attention scores reads at batch \<open>b\<close>,
  head \<open>h\<close>, query position \<open>q\<close> and key position \<open>k\<close>: a dimension of size 1 is read at
  index 0.
\<close>

definition broadcast_at :: "tensor4 \<Rightarrow> nat \<Rightarrow> nat \<Rightarrow> nat \<Rightarrow> nat \<Rightarrow> real" where
  "broadcast_at t b h q k =
     (let tb = t ! b;
          th = (if length tb = 1 then tb ! 0 else tb ! h);
          tq = (if length th = 1 then th ! 0 else th ! q)
      in tq ! k)"

section \<open>Properties of the sampler\<close>

subsection \<open>One draw: the resample loop\<close>

lemma resample_stop: "cur \<notin> used \<Longrightarrow> resample used cur s = Some (Inr cur, s)"
  by (subst resample.simps) simp

lemma resample_step:
  "cur \<in> used \<Longrightarrow>
   resample used cur s =
     (case random_item s of
        (Inl e, s') \<Rightarrow> Some (Inl e, s')
      | (Inr c, s') \<Rightarrow> resample used c s')"
  by (subst resample.simps) simp

lemma random_item_ok:
  "random_item_list_length s = length (random_item_list s) \<Longrightarrow> random_item_list s \<noteq> [] \<Longrightarrow>
   random_item s = (Inr (random_item_list s ! (random_pr s mod length (random_item_list s))),
                    s\<lparr>random_pr := random_pr s + 1\<rparr>)"
  by (simp add: random_item_def Let_def)

lemma random_item_empty:
  "random_item_list_length s = 0 \<Longrightarrow> random_item s = (Inl ZeroDivisionError, s)"
  by (simp add: random_item_def)

lemma resample_never_aux:
  assumes "resample used cur s = Some r"
  shows "random_item_list_length s = length (random_item_list s) \<longrightarrow>
         random_item_list s \<noteq> [] \<longrightarrow> set (random_item_list s) \<subseteq> used \<longrightarrow> cur \<in> used \<longrightarrow> False"
proof (rule resample.raw_induct
    [where P = "\<lambda>used cur s r. random_item_list_length s = length (random_item_list s) \<longrightarrow>
         random_item_list s \<noteq> [] \<longrightarrow> set (random_item_list s) \<subseteq> used \<longrightarrow> cur \<in> used \<longrightarrow> False",
     rotated 1, OF assms])
  fix resample' :: "int set \<Rightarrow> int \<Rightarrow> sampler \<Rightarrow> ((error + int) \<times> sampler) option"
    and used cur s r
  assume IH: "\<And>used cur s r. resample' used cur s = Some r \<Longrightarrow>
         random_item_list_length s = length (random_item_list s) \<longrightarrow>
         random_item_list s \<noteq> [] \<longrightarrow> set (random_item_list s) \<subseteq> used \<longrightarrow> cur \<in> used \<longrightarrow> False"
    and body: "(if cur \<in> used
      then (case random_item s of
              (Inl e, s') \<Rightarrow> Some (Inl e, s')
            | (Inr c, s') \<Rightarrow> resample' used c s')
      else Some (Inr cur, s)) = Some r"
  show "random_item_list_length s = length (random_item_list s) \<longrightarrow>
         random_item_list s \<noteq> [] \<longrightarrow> set (random_item_list s) \<subseteq> used \<longrightarrow> cur \<in> used \<longrightarrow> False"
  proof (intro impI)
    assume len: "random_item_list_length s = length (random_item_list s)"
      and ne: "random_item_list s \<noteq> []"
      and sub: "set (random_item_list s) \<subseteq> used"
      and cur: "cur \<in> used"
    let ?c = "random_item_list s ! (random_pr s mod length (random_item_list s))"
    let ?s' = "s\<lparr>random_pr := random_pr s + 1\<rparr>"
    from ne have "?c \<in> set (random_item_list s)" by simp
    with sub have c: "?c \<in> used" by blast
    from body cur len ne have "resample' used ?c ?s' = Some r"
      by (simp add: random_item_ok)
    from IH[OF this] len ne sub c show False by simp
  qed
qed

lemma resample_all_seen:
  assumes "random_item_list_length s = length (random_item_list s)"
    and "random_item_list s \<noteq> []"
    and "set (random_item_list s) \<subseteq> used" and "cur \<in> used"
  shows "resample used cur s = None"
proof (cases "resample used cur s")
  case None then show ?thesis .
next
  case (Some r)
  from resample_never_aux[OF Some] assms show ?thesis by blast
qed

lemma draw_all_seen:
  assumes "random_item_list_length s = length (random_item_list s)"
    and "random_item_list s \<noteq> []"
    and "set (random_item_list s) \<subseteq> used"
  shows "draw used s = None"
proof -
  let ?c = "random_item_list s ! (random_pr s mod length (random_item_list s))"
  from assms(2) have "?c \<in> set (random_item_list s)" by simp
  with assms(3) have "?c \<in> used" by blast
  then show ?thesis
    using assms by (simp add: draw_def random_item_ok resample_all_seen)
qed



lemma resample_finds:
  assumes len: "random_item_list_length s = length (random_item_list s)"
    and ne: "random_item_list s \<noteq> []"
    and hit: "random_item_list s ! ((random_pr s + k) mod length (random_item_list s)) \<notin> used"
  shows "\<exists>c j. j \<le> k + 1 \<and> resample used cur s = Some (Inr c, s\<lparr>random_pr := random_pr s + j\<rparr>)
            \<and> c \<notin> used \<and> (c = cur \<or> c \<in> set (random_item_list s))"
  using assms
proof (induction k arbitrary: cur s)
  case 0
  let ?c = "random_item_list s ! (random_pr s mod length (random_item_list s))"
  let ?s' = "s\<lparr>random_pr := random_pr s + 1\<rparr>"
  show ?case
  proof (cases "cur \<in> used")
    case False
    then have "resample used cur s = Some (Inr cur, s\<lparr>random_pr := random_pr s + 0\<rparr>)"
      by (simp add: resample_stop)
    with False show ?thesis by blast
  next
    case True
    from 0 have c: "?c \<notin> used" by simp
    have "resample used ?c ?s' = Some (Inr ?c, ?s')"
      using c by (subst resample.simps) simp
    with True 0 have "resample used cur s = Some (Inr ?c, s\<lparr>random_pr := random_pr s + 1\<rparr>)"
      by (subst resample.simps) (simp add: random_item_ok)
    moreover from 0 have "?c \<in> set (random_item_list s)" by simp
    ultimately show ?thesis using c by (intro exI[of _ ?c] exI[of _ 1]) simp
  qed
next
  case (Suc k)
  let ?c = "random_item_list s ! (random_pr s mod length (random_item_list s))"
  let ?s' = "s\<lparr>random_pr := random_pr s + 1\<rparr>"
  show ?case
  proof (cases "cur \<in> used")
    case False
    then have "resample used cur s = Some (Inr cur, s\<lparr>random_pr := random_pr s + 0\<rparr>)"
      by (simp add: resample_stop)
    with False show ?thesis by blast
  next
    case True
    have step: "resample used cur s = resample used ?c ?s'"
      using True Suc.prems by (subst resample.simps) (simp add: random_item_ok)
    have "\<exists>c j. j \<le> k + 1 \<and> resample used ?c ?s' = Some (Inr c, ?s'\<lparr>random_pr := random_pr ?s' + j\<rparr>)
            \<and> c \<notin> used \<and> (c = ?c \<or> c \<in> set (random_item_list ?s'))"
      using Suc.prems by (intro Suc.IH) simp_all
    then obtain c j where j: "j \<le> k + 1"
      and r: "resample used ?c ?s' = Some (Inr c, ?s'\<lparr>random_pr := random_pr ?s' + j\<rparr>)"
      and c: "c \<notin> used" "c = ?c \<or> c \<in> set (random_item_list ?s')" by blast
    from Suc.prems have "?c \<in> set (random_item_list s)" by simp
    with c have "c \<in> set (random_item_list s)" by auto
    with step r c j show ?thesis
      by (intro exI[of _ c] exI[of _ "j + 1"]) simp
  qed
qed

lemma cursor_reaches:
  fixes pr j L :: nat
  assumes "j < L"
  shows "\<exists>k<L. (pr + k) mod L = j"
proof -
  let ?k = "(j + (L - pr mod L)) mod L"
  from assms have L: "0 < L" by simp
  then have lt: "pr mod L < L" by simp
  have "(pr + ?k) mod L = (pr + (j + (L - pr mod L))) mod L"
    by (simp add: mod_add_right_eq)
  also have "\<dots> = (pr mod L + (j + (L - pr mod L))) mod L"
    by (simp add: mod_add_left_eq)
  also from lt have "pr mod L + (j + (L - pr mod L)) = j + L" by simp
  also from assms have "(j + L) mod L = j" by simp
  finally have "(pr + ?k) mod L = j" .
  moreover from L have "?k < L" by simp
  ultimately show ?thesis by blast
qed

lemma draw_finds:
  assumes len: "random_item_list_length s = length (random_item_list s)"
    and ex: "\<exists>x\<in>set (random_item_list s). x \<notin> used"
  shows "\<exists>c j. 1 \<le> j \<and> j \<le> length (random_item_list s) \<and>
           draw used s = Some (Inr c, s\<lparr>random_pr := random_pr s + j\<rparr>) \<and>
           c \<in> set (random_item_list s) \<and> c \<notin> used"
proof -
  let ?pool = "random_item_list s"
  let ?L = "length ?pool"
  from ex have ne: "?pool \<noteq> []" by auto
  from ex obtain i where i: "i < ?L" "?pool ! i \<notin> used"
    by (auto simp: in_set_conv_nth)
  from cursor_reaches[OF i(1), of "random_pr s"]
  obtain k where k: "k < ?L" "(random_pr s + k) mod ?L = i" by blast
  let ?c0 = "?pool ! (random_pr s mod ?L)"
  let ?s1 = "s\<lparr>random_pr := random_pr s + 1\<rparr>"
  have d: "draw used s = resample used ?c0 ?s1"
    using len ne by (simp add: draw_def random_item_ok)
  have c0: "?c0 \<in> set ?pool" using ne by simp
  show ?thesis
  proof (cases k)
    case 0
    with k i have "?c0 \<notin> used" by simp
    then have "resample used ?c0 ?s1 = Some (Inr ?c0, ?s1)"
      by (rule resample_stop)
    with d c0 \<open>?c0 \<notin> used\<close> ne show ?thesis
      by (intro exI[of _ ?c0] exI[of _ 1]) (simp add: Suc_le_eq)
  next
    case (Suc k')
    have "\<exists>c j. j \<le> k' + 1 \<and>
            resample used ?c0 ?s1 = Some (Inr c, ?s1\<lparr>random_pr := random_pr ?s1 + j\<rparr>) \<and>
            c \<notin> used \<and> (c = ?c0 \<or> c \<in> set (random_item_list ?s1))"
      using len ne i k Suc by (intro resample_finds) simp_all
    then obtain c j where j: "j \<le> k' + 1"
      and r: "resample used ?c0 ?s1 = Some (Inr c, ?s1\<lparr>random_pr := random_pr ?s1 + j\<rparr>)"
      and c: "c \<notin> used" "c = ?c0 \<or> c \<in> set (random_item_list ?s1)" by blast
    from c c0 have "c \<in> set ?pool" by auto
    with d r c j k Suc show ?thesis
      by (intro exI[of _ c] exI[of _ "j + 1"]) simp
  qed
qed

text \<open>
  Claim C3. On a sampler whose stored pool length is the pool's length (as construction
  leaves it): if the pool holds an entry outside the user's seen set, the draw returns
  such an entry after reading at least one and at most \<open>length pool\<close> pool entries; if the
  pool is not empty and the seen set covers every pool entry, the draw does not return.
  (On an empty pool the first \<^verbatim>\<open>random_item\<close> raises \<^verbatim>\<open>ZeroDivisionError\<close> before the loop
  is entered, see \<open>random_item_empty\<close>.)
\<close>

theorem draw_terminates_iff_unseen:
  assumes "random_item_list_length s = length (random_item_list s)"
  shows "((\<exists>x\<in>set (random_item_list s). x \<notin> used) \<longrightarrow>
            (\<exists>c j. 1 \<le> j \<and> j \<le> length (random_item_list s) \<and>
               draw used s = Some (Inr c, s\<lparr>random_pr := random_pr s + j\<rparr>) \<and>
               c \<in> set (random_item_list s) \<and> c \<notin> used)) \<and>
         (random_item_list s \<noteq> [] \<and> set (random_item_list s) \<subseteq> used \<longrightarrow>
            draw used s = None)"
  using assms draw_finds draw_all_seen by blast

theorem draw_terminates_iff_unseen_witness:
  "random_item_list_length scenario_sampler = length (random_item_list scenario_sampler) \<and>
   (\<exists>x\<in>set (random_item_list scenario_sampler). x \<notin> {1, 2}) \<and>
   (\<exists>c j. 1 \<le> j \<and> j \<le> length (random_item_list scenario_sampler) \<and>
      draw {1, 2} scenario_sampler =
        Some (Inr c, scenario_sampler\<lparr>random_pr := random_pr scenario_sampler + j\<rparr>) \<and>
      c \<in> set (random_item_list scenario_sampler) \<and> c \<notin> {1, 2}) \<and>
   random_item_list scenario_sampler \<noteq> [] \<and>
   set (random_item_list scenario_sampler) \<subseteq> {0, 1, 2, 3, 4} \<and>
   draw {0, 1, 2, 3, 4} scenario_sampler = None"
proof -
  have len: "random_item_list_length scenario_sampler = length (random_item_list scenario_sampler)"
    by (simp add: scenario_sampler_def)
  have ex: "\<exists>x\<in>set (random_item_list scenario_sampler). x \<notin> {1, 2}"
    by (simp add: scenario_sampler_def)
  have cover: "random_item_list scenario_sampler \<noteq> [] \<and>
      set (random_item_list scenario_sampler) \<subseteq> {0, 1, 2, 3, 4}"
    by (simp add: scenario_sampler_def)
  from draw_terminates_iff_unseen[OF len, of "{1, 2}"] ex
  have A: "\<exists>c j. 1 \<le> j \<and> j \<le> length (random_item_list scenario_sampler) \<and>
      draw {1, 2} scenario_sampler =
        Some (Inr c, scenario_sampler\<lparr>random_pr := random_pr scenario_sampler + j\<rparr>) \<and>
      c \<in> set (random_item_list scenario_sampler) \<and> c \<notin> {1, 2}"
    by blast
  from draw_terminates_iff_unseen[OF len, of "{0, 1, 2, 3, 4}"] cover
  have B: "draw {0, 1, 2, 3, 4} scenario_sampler = None"
    by blast
  from len ex A cover B show ?thesis by blast
qed

subsection \<open>Sampling moves only the cursor\<close>

lemma advanced_refl: "advanced s s"
proof -
  have "s = s\<lparr>random_pr := random_pr s + 0\<rparr>" by simp
  then show ?thesis unfolding advanced_def by blast
qed

lemma advanced_trans: "advanced s s' \<Longrightarrow> advanced s' s'' \<Longrightarrow> advanced s s''"
proof -
  assume "advanced s s'" "advanced s' s''"
  then obtain i j where "s' = s\<lparr>random_pr := random_pr s + i\<rparr>"
    "s'' = s'\<lparr>random_pr := random_pr s' + j\<rparr>" unfolding advanced_def by blast
  then have "s'' = s\<lparr>random_pr := random_pr s + (i + j)\<rparr>" by (simp add: add.assoc)
  then show ?thesis unfolding advanced_def by blast
qed

lemma advanced_fields:
  assumes "advanced s s'"
  shows "phases s' = phases s" "datasets s' = datasets s" "n_users s' = n_users s"
    "n_items s' = n_items s" "random_item_list s' = random_item_list s"
    "random_item_list_length s' = random_item_list_length s"
    "used_item_id s' = used_item_id s" "random_pr s \<le> random_pr s'"
  using assms unfolding advanced_def by auto

lemma random_item_advanced: "random_item s = (r, s') \<Longrightarrow> advanced s s'"
proof -
  assume a: "random_item s = (r, s')"
  have "s' = s \<or> s' = s\<lparr>random_pr := random_pr s + 1\<rparr>"
    using a by (auto simp: random_item_def Let_def split: if_splits)
  then show ?thesis
  proof
    assume "s' = s" then show ?thesis by (simp add: advanced_refl)
  next
    assume "s' = s\<lparr>random_pr := random_pr s + 1\<rparr>"
    then show ?thesis unfolding advanced_def by blast
  qed
qed

lemma resample_advanced:
  assumes "resample used cur s = Some r"
  shows "advanced s (snd r)"
proof (rule resample.raw_induct
    [where P = "\<lambda>used cur s r. advanced s (snd r)", rotated 1, OF assms])
  fix resample' :: "int set \<Rightarrow> int \<Rightarrow> sampler \<Rightarrow> ((error + int) \<times> sampler) option"
    and used cur s r
  assume IH: "\<And>used cur s r. resample' used cur s = Some r \<Longrightarrow> advanced s (snd r)"
    and body: "(if cur \<in> used
      then (case random_item s of
              (Inl e, s') \<Rightarrow> Some (Inl e, s')
            | (Inr c, s') \<Rightarrow> resample' used c s')
      else Some (Inr cur, s)) = Some r"
  show "advanced s (snd r)"
  proof (cases "cur \<in> used")
    case False
    with body show ?thesis by (auto simp: advanced_refl)
  next
    case True
    obtain x s1 where ri: "random_item s = (x, s1)" by (cases "random_item s")
    then have adv: "advanced s s1" by (rule random_item_advanced)
    show ?thesis
    proof (cases x)
      case (Inl e)
      with body True ri adv show ?thesis by auto
    next
      case (Inr c)
      with body True ri have "resample' used c s1 = Some r" by simp
      from IH[OF this] adv show ?thesis by (blast intro: advanced_trans)
    qed
  qed
qed

lemma draw_advanced:
  assumes "draw used s = Some r"
  shows "advanced s (snd r)"
proof -
  obtain x s1 where ri: "random_item s = (x, s1)" by (cases "random_item s")
  then have adv: "advanced s s1" by (rule random_item_advanced)
  show ?thesis
  proof (cases x)
    case (Inl e)
    with assms ri adv show ?thesis by (auto simp: draw_def)
  next
    case (Inr c)
    with assms ri have "resample used c s1 = Some r" by (simp add: draw_def)
    from resample_advanced[OF this] adv show ?thesis by (blast intro: advanced_trans)
  qed
qed

lemma sample_loop_advanced:
  "sample_loop useds s = Some r \<Longrightarrow> advanced s (snd r)"
proof (induction useds arbitrary: s r)
  case Nil
  then show ?case by (auto simp: advanced_refl)
next
  case (Cons used rest)
  from Cons.prems obtain x s1 where d: "draw used s = Some (x, s1)"
    by (cases "draw used s") auto
  from draw_advanced[OF d] have adv: "advanced s s1" by simp
  show ?case
  proof (cases x)
    case (Inl e)
    with Cons.prems d adv show ?thesis by auto
  next
    case (Inr c)
    with Cons.prems d obtain y s2 where l: "sample_loop rest s1 = Some (y, s2)"
      by (cases "sample_loop rest s1") auto
    from Cons.IH[OF l] adv have "advanced s s2" by (auto intro: advanced_trans)
    with Cons.prems d Inr l show ?thesis by (cases y) auto
  qed
qed

lemma sample_body_advanced:
  "sample_body s phase user_ids num = Some r \<Longrightarrow> advanced s (snd r)"
  by (auto simp: sample_body_def advanced_refl split: option.splits sum.splits
      dest: sample_loop_advanced)

lemma sample_by_user_ids_advanced:
  assumes "sample_by_user_ids s phase user_ids num = Some r"
  shows "advanced s (snd r)"
proof -
  from assms obtain x s1 where b: "sample_body s phase user_ids num = Some (x, s1)"
    by (cases "sample_body s phase user_ids num") (auto simp: sample_by_user_ids_def)
  from sample_body_advanced[OF b] have adv: "advanced s s1" by simp
  from assms b have "snd r = s1"
    by (auto simp: sample_by_user_ids_def split: sum.splits error.splits if_splits option.splits)
  with adv show ?thesis by simp
qed

subsection \<open>Construction: the pool\<close>

lemma init_unknown_distribution:
  "distribution \<noteq> ''uniform'' \<Longrightarrow> distribution \<noteq> ''popularity'' \<Longrightarrow>
   init shuffle ps ds distribution = Inl (ValueError_distribution distribution)"
  by (simp add: init_def legal_distribution_def)

lemma init_InrE:
  assumes "init shuffle ps ds distribution = Inr s"
  obtains d0 rest pool0 used where
    "distribution \<in> legal_distribution"
    "length (as_list ps) = length (as_list ds)"
    "as_list ds = d0 # rest"
    "build_pool distribution (item_num d0) (as_list ds) = Inr pool0"
    "build_used (replicate (nat (user_num d0)) {}) [] (zip (as_list ps) (as_list ds)) = Inr used"
    "s = \<lparr>phases = as_list ps, datasets = as_list ds,
          n_users = user_num d0, n_items = item_num d0,
          random_item_list = shuffle pool0, random_pr = 0,
          random_item_list_length = length (shuffle pool0),
          used_item_id = used\<rparr>"
proof -
  from assms have legal: "distribution \<in> legal_distribution"
    by (cases "distribution \<in> legal_distribution") (simp_all add: init_def)
  from assms legal have len: "length (as_list ps) = length (as_list ds)"
    by (cases "length (as_list ps) = length (as_list ds)") (simp_all add: init_def Let_def)
  from assms legal len obtain d0 rest where ds: "as_list ds = d0 # rest"
    by (cases "as_list ds") (simp_all add: init_def Let_def)
  from assms legal len ds obtain pool0 where
    pool: "build_pool distribution (item_num d0) (as_list ds) = Inr pool0"
    by (cases "build_pool distribution (item_num d0) (as_list ds)") (simp_all add: init_def Let_def)
  from assms legal len ds pool obtain used where
    used: "build_used (replicate (nat (user_num d0)) {}) [] (zip (as_list ps) (as_list ds)) = Inr used"
    by (cases "build_used (replicate (nat (user_num d0)) {}) [] (zip (as_list ps) (as_list ds))")
      (simp_all add: init_def Let_def)
  from assms legal len ds pool used have
    "s = \<lparr>phases = as_list ps, datasets = as_list ds,
          n_users = user_num d0, n_items = item_num d0,
          random_item_list = shuffle pool0, random_pr = 0,
          random_item_list_length = length (shuffle pool0),
          used_item_id = used\<rparr>"
    by (simp add: init_def Let_def)
  with legal len ds pool used show thesis by (rule that)
qed

lemma init_pool:
  assumes "init shuffle ps ds distribution = Inr s"
  shows "\<exists>pool0. build_pool distribution (n_items s) (datasets s) = Inr pool0 \<and>
           random_item_list s = shuffle pool0"
  using assms by (elim init_InrE) simp

lemma upto_interval: "set [0..n - 1] = {0..<n}"
  using atLeastLessThanPlusOne_atLeastAtMost_int[of 0 "n - 1"] by simp

lemma build_pool_uniform:
  "\<exists>pool. build_pool ''uniform'' n ds = Inr pool \<and> distinct pool \<and> set pool = {0..<n}"
  using upto_interval[of n] by (simp add: build_pool_def)

lemma build_pool_popularity:
  "\<exists>pool. build_pool ''popularity'' n ds = Inr pool \<and>
      mset pool = mset (concat (map (\<lambda>d. map snd (inter_feat d)) ds))"
  by (simp add: build_pool_def)

lemma scenario_init:
  "init id (Single ''train'') (Single scenario_dataset) ''uniform'' = Inr scenario_sampler"
  by (simp add: init_def legal_distribution_def build_pool_def scenario_dataset_def
      scenario_sampler_def add_used_def np_pos_def upto.simps AList.update.simps numeral_2_eq_2
      insert_commute)

text \<open>
  Claim C5. Before shuffling, the uniform pool is duplicate-free and its entries are
  exactly the ids \<open>0 \<le> i < n_items\<close>; the popularity pool has the same multiset of ids as
  the concatenation of the datasets' item-id columns; a distribution name other than
  \<^verbatim>\<open>uniform\<close> and \<^verbatim>\<open>popularity\<close> makes the constructor raise the \<^verbatim>\<open>ValueError\<close> that names
  it; and the pool a constructed sampler holds is the shuffle of that pool.
\<close>

theorem build_pool_contents:
  "(\<exists>pool. build_pool ''uniform'' n ds = Inr pool \<and> distinct pool \<and> set pool = {0..<n}) \<and>
   (\<exists>pool. build_pool ''popularity'' n ds = Inr pool \<and>
      mset pool = mset (concat (map (\<lambda>d. map snd (inter_feat d)) ds))) \<and>
   (distribution \<noteq> ''uniform'' \<and> distribution \<noteq> ''popularity'' \<longrightarrow>
      init shuffle phases0 datasets0 distribution = Inl (ValueError_distribution distribution)) \<and>
   (init shuffle phases0 datasets0 distribution = Inr s \<longrightarrow>
      (\<exists>pool0. build_pool distribution (n_items s) (datasets s) = Inr pool0 \<and>
         random_item_list s = shuffle pool0))"
proof (intro conjI impI)
  show "\<exists>pool. build_pool ''uniform'' n ds = Inr pool \<and> distinct pool \<and> set pool = {0..<n}"
    by (rule build_pool_uniform)
  show "\<exists>pool. build_pool ''popularity'' n ds = Inr pool \<and>
      mset pool = mset (concat (map (\<lambda>d. map snd (inter_feat d)) ds))"
    by (rule build_pool_popularity)
next
  assume "distribution \<noteq> ''uniform'' \<and> distribution \<noteq> ''popularity''"
  then show "init shuffle phases0 datasets0 distribution = Inl (ValueError_distribution distribution)"
    by (simp add: init_unknown_distribution)
next
  assume "init shuffle phases0 datasets0 distribution = Inr s"
  then show "\<exists>pool0. build_pool distribution (n_items s) (datasets s) = Inr pool0 \<and>
         random_item_list s = shuffle pool0"
    by (rule init_pool)
qed

theorem build_pool_contents_witness:
  "''zipf'' \<noteq> ''uniform'' \<and> ''zipf'' \<noteq> ''popularity'' \<and>
   init id (Single ''train'') (Single scenario_dataset) ''zipf'' = Inl (ValueError_distribution ''zipf'') \<and>
   init id (Single ''train'') (Single scenario_dataset) ''uniform'' = Inr scenario_sampler \<and>
   (\<exists>pool0. build_pool ''uniform'' (n_items scenario_sampler) (datasets scenario_sampler) = Inr pool0 \<and>
         random_item_list scenario_sampler = id pool0)"
proof -
  have ne: "''zipf'' \<noteq> ''uniform'' \<and> ''zipf'' \<noteq> ''popularity''" by simp
  from build_pool_contents[of 5 "[scenario_dataset]" "''zipf''" id "Single ''train''"
      "Single scenario_dataset" scenario_sampler] ne
  have A: "init id (Single ''train'') (Single scenario_dataset) ''zipf'' =
      Inl (ValueError_distribution ''zipf'')" by blast
  from build_pool_contents[of 5 "[scenario_dataset]" "''uniform''" id "Single ''train''"
      "Single scenario_dataset" scenario_sampler] scenario_init
  have B: "\<exists>pool0. build_pool ''uniform'' (n_items scenario_sampler) (datasets scenario_sampler) = Inr pool0 \<and>
         random_item_list scenario_sampler = id pool0" by blast
  from ne A B scenario_init show ?thesis by blast
qed

subsection \<open>Construction: the seen sets\<close>

lemma np_pos_Inr: "np_pos n i = Inr j \<Longrightarrow> j < n"
  by (auto simp: np_pos_def split: if_splits)

lemma np_pos_nonneg: "0 \<le> i \<Longrightarrow> np_pos n i = Inr j \<longleftrightarrow> i = int j \<and> j < n"
  by (auto simp: np_pos_def)

lemma np_pos_in_range: "0 \<le> i \<Longrightarrow> i < int n \<Longrightarrow> np_pos n i = Inr (nat i)"
  by (simp add: np_pos_def)

lemma add_used_length: "add_used cur row = Inr cur' \<Longrightarrow> length cur' = length cur"
  by (auto simp: add_used_def split: sum.splits)

lemma add_used_nth:
  assumes "add_used cur row = Inr cur'" and "u < length cur"
  shows "cur' ! u = cur ! u \<union> (if np_pos (length cur) (fst row) = Inr u then {snd row} else {})"
proof -
  from assms(1) obtain j where j: "np_pos (length cur) (fst row) = Inr j"
    and cur': "cur' = cur[j := insert (snd row) (cur ! j)]"
    by (auto simp: add_used_def split: sum.splits)
  from j have "j < length cur" by (rule np_pos_Inr)
  with assms(2) j cur' show ?thesis by (auto simp: nth_list_update)
qed

lemma add_all_length: "add_all cur rows = Inr cur' \<Longrightarrow> length cur' = length cur"
proof (induction rows arbitrary: cur)
  case Nil
  then show ?case by simp
next
  case (Cons row rows)
  then show ?case by (auto split: sum.splits dest: add_used_length)
qed

lemma add_all_nth:
  assumes "add_all cur rows = Inr cur'" and "u < length cur"
  shows "cur' ! u = cur ! u \<union> snd ` {row \<in> set rows. np_pos (length cur) (fst row) = Inr u}"
  using assms
proof (induction rows arbitrary: cur)
  case Nil
  then show ?case by simp
next
  case (Cons row rows)
  from Cons.prems(1) obtain mid where mid: "add_used cur row = Inr mid"
    and rest: "add_all mid rows = Inr cur'"
    by (auto split: sum.splits)
  from mid have len: "length mid = length cur" by (rule add_used_length)
  from Cons.IH[OF rest] Cons.prems(2) len
  have "cur' ! u = mid ! u \<union> snd ` {row \<in> set rows. np_pos (length cur) (fst row) = Inr u}"
    by simp
  with add_used_nth[OF mid Cons.prems(2)] show ?case by auto
qed

lemma add_all_nonneg:
  assumes "add_all cur rows = Inr cur'" and "u < length cur"
    and "\<forall>row\<in>set rows. 0 \<le> fst row"
  shows "cur' ! u = cur ! u \<union> set (map snd (filter (\<lambda>row. fst row = int u) rows))"
proof -
  from assms(2,3) have "{row \<in> set rows. np_pos (length cur) (fst row) = Inr u}
      = {row \<in> set rows. fst row = int u}"
    by (auto simp: np_pos_nonneg)
  with add_all_nth[OF assms(1,2)] show ?thesis by auto
qed

lemma build_used_keys:
  "build_used l used pds = Inr used' \<Longrightarrow>
   set (map fst used') = set (map fst used) \<union> set (map fst pds)"
proof (induction pds arbitrary: l used)
  case Nil
  then show ?case by simp
next
  case (Cons pd pds)
  obtain phase d where pd: "pd = (phase, d)" by (cases pd)
  from Cons.prems pd obtain cur where cur: "add_all l (inter_feat d) = Inr cur"
    and rest: "build_used cur (AList.update phase cur used) pds = Inr used'"
    by (auto split: sum.splits)
  from Cons.IH[OF rest] pd show ?case by (auto simp: dom_update image_iff)
qed

lemma update_set: "set (AList.update p v al) \<subseteq> insert (p, v) (set al)"
  by (induction al) auto

lemma build_used_lengths:
  "build_used l used pds = Inr used' \<Longrightarrow>
   \<forall>rows\<in>set (map snd used). length rows = length l \<Longrightarrow>
   \<forall>rows\<in>set (map snd used'). length rows = length l"
proof (induction pds arbitrary: l used)
  case Nil
  then show ?case by simp
next
  case (Cons pd pds)
  obtain phase d where pd: "pd = (phase, d)" by (cases pd)
  from Cons.prems(1) pd obtain cur where cur: "add_all l (inter_feat d) = Inr cur"
    and rest: "build_used cur (AList.update phase cur used) pds = Inr used'"
    by (auto split: sum.splits)
  from cur have len: "length cur = length l" by (rule add_all_length)
  have "\<forall>rows\<in>set (map snd (AList.update phase cur used)). length rows = length cur"
  proof
    fix rows assume "rows \<in> set (map snd (AList.update phase cur used))"
    then obtain k where "(k, rows) \<in> set (AList.update phase cur used)" by auto
    with update_set[of phase cur used] have "(k, rows) \<in> set used \<or> rows = cur" by auto
    with Cons.prems(2) len show "length rows = length cur" by force
  qed
  from Cons.IH[OF rest this] len show ?case by simp
qed

lemma build_used_other:
  "build_used l used pds = Inr used' \<Longrightarrow> phase \<notin> set (map fst pds) \<Longrightarrow>
   map_of used' phase = map_of used phase"
proof (induction pds arbitrary: l used)
  case Nil
  then show ?case by simp
next
  case (Cons pd pds)
  obtain p d where pd: "pd = (p, d)" by (cases pd)
  from Cons.prems(1) pd obtain cur where cur: "add_all l (inter_feat d) = Inr cur"
    and rest: "build_used cur (AList.update p cur used) pds = Inr used'"
    by (auto split: sum.splits)
  from Cons.prems(2) pd have "phase \<noteq> p" "phase \<notin> set (map fst pds)" by auto
  with Cons.IH[OF rest] show ?case by (simp add: update_conv')
qed

text \<open>The union of what the first \<open>k + 1\<close> phases add to user \<open>u\<close>.\<close>

lemma build_used_nth:
  assumes "build_used l used pds = Inr used'" and "distinct (map fst pds)"
    and "k < length pds" and "u < length l"
    and "\<forall>pd\<in>set pds. \<forall>row\<in>set (inter_feat (snd pd)). 0 \<le> fst row"
  shows "\<exists>rows. map_of used' (fst (pds ! k)) = Some rows \<and> length rows = length l \<and>
           rows ! u = l ! u \<union> cumulative (map snd pds) k (int u)"
  using assms
proof (induction pds arbitrary: l used k)
  case Nil
  then show ?case by simp
next
  case (Cons pd pds)
  obtain p d where pd: "pd = (p, d)" by (cases pd)
  from Cons.prems(1) pd obtain cur where cur: "add_all l (inter_feat d) = Inr cur"
    and rest: "build_used cur (AList.update p cur used) pds = Inr used'"
    by (auto split: sum.splits)
  from cur have len: "length cur = length l" by (rule add_all_length)
  from Cons.prems(5) pd have nonneg: "\<forall>row\<in>set (inter_feat d). 0 \<le> fst row" by simp
  from add_all_nonneg[OF cur Cons.prems(4) nonneg]
  have curu: "cur ! u = l ! u \<union> interacted d (int u)" by (simp add: interacted_def)
  show ?case
  proof (cases k)
    case 0
    from Cons.prems(2) pd have "p \<notin> set (map fst pds)" by simp
    from build_used_other[OF rest this] have "map_of used' p = Some cur"
      by (simp add: update_conv')
    with 0 pd len curu show ?thesis by (simp add: cumulative_def)
  next
    case (Suc k')
    from Cons.prems Suc have "\<exists>rows. map_of used' (fst (pds ! k')) = Some rows \<and>
        length rows = length cur \<and> rows ! u = cur ! u \<union> cumulative (map snd pds) k' (int u)"
      using len by (intro Cons.IH[OF rest]) simp_all
    then obtain rows where rows: "map_of used' (fst (pds ! k')) = Some rows"
      "length rows = length cur" "rows ! u = cur ! u \<union> cumulative (map snd pds) k' (int u)"
      by blast
    have "cumulative (map snd (pd # pds)) k (int u) =
        interacted d (int u) \<union> cumulative (map snd pds) k' (int u)"
      using Suc pd by (simp add: cumulative_def)
    with rows curu Suc len show ?thesis by auto
  qed
qed

lemma cumulative_mono: "j \<le> k \<Longrightarrow> cumulative ds j u \<subseteq> cumulative ds k u"
proof -
  assume "j \<le> k"
  then have "set (take (Suc j) ds) \<subseteq> set (take (Suc k) ds)"
    by (simp add: set_take_subset_set_take)
  then show ?thesis unfolding cumulative_def by blast
qed

lemma seen_set_lookup:
  "map_of (used_item_id s) phase = Some rows \<Longrightarrow> 0 \<le> u \<Longrightarrow> u < int (length rows) \<Longrightarrow>
   seen_set s phase u = rows ! nat u"
  by (simp add: seen_set_def np_index_def np_pos_in_range)

lemma init_seen:
  assumes init: "init shuffle phases0 datasets0 distribution = Inr s"
    and dist: "distinct (as_list phases0)"
    and nonneg: "\<forall>d\<in>set (as_list datasets0). \<forall>row\<in>set (inter_feat d). 0 \<le> fst row"
    and k: "k < length (phases s)" and u: "0 \<le> u" "u < n_users s"
  shows "\<exists>rows. map_of (used_item_id s) (phases s ! k) = Some rows \<and>
           length rows = nat (n_users s) \<and>
           seen_set s (phases s ! k) u = cumulative (datasets s) k u"
proof -
  from init obtain d0 rest pool0 used where
    legal: "distribution \<in> legal_distribution"
    and len: "length (as_list phases0) = length (as_list datasets0)"
    and ds: "as_list datasets0 = d0 # rest"
    and pool: "build_pool distribution (item_num d0) (as_list datasets0) = Inr pool0"
    and used: "build_used (replicate (nat (user_num d0)) {}) []
        (zip (as_list phases0) (as_list datasets0)) = Inr used"
    and s: "s = \<lparr>phases = as_list phases0, datasets = as_list datasets0,
          n_users = user_num d0, n_items = item_num d0,
          random_item_list = shuffle pool0, random_pr = 0,
          random_item_list_length = length (shuffle pool0),
          used_item_id = used\<rparr>"
    by (rule init_InrE)
  let ?pds = "zip (as_list phases0) (as_list datasets0)"
  let ?l = "replicate (nat (user_num d0)) ({}::int set)"
  from len have fstz: "map fst ?pds = as_list phases0" and sndz: "map snd ?pds = as_list datasets0"
    by simp_all
  from dist fstz have d: "distinct (map fst ?pds)" by simp
  from k s len have k': "k < length ?pds" by simp
  from u s have u': "nat u < length ?l" by simp
  have nn: "\<forall>pd\<in>set ?pds. \<forall>row\<in>set (inter_feat (snd pd)). 0 \<le> fst row"
  proof (intro ballI)
    fix pd row assume pd: "pd \<in> set ?pds" and row: "row \<in> set (inter_feat (snd pd))"
    obtain a b where ab: "pd = (a, b)" by (cases pd)
    with pd have "b \<in> set (as_list datasets0)" by (auto dest: set_zip_rightD)
    with ab have "snd pd \<in> set (as_list datasets0)" by simp
    with nonneg row show "0 \<le> fst row" by blast
  qed
  from build_used_nth[OF used d k' u' nn] obtain rows where
    rows: "map_of used (fst (?pds ! k)) = Some rows" "length rows = length ?l"
      "rows ! nat u = ?l ! nat u \<union> cumulative (map snd ?pds) k (int (nat u))"
    by blast
  from k' have "fst (?pds ! k) = as_list phases0 ! k" by simp
  with rows s have m: "map_of (used_item_id s) (phases s ! k) = Some rows" by simp
  from rows(2) s have l: "length rows = nat (n_users s)" by simp
  from rows(3) u u' sndz s have "rows ! nat u = cumulative (datasets s) k u" by simp
  moreover from seen_set_lookup[OF m u(1)] l u have "seen_set s (phases s ! k) u = rows ! nat u"
    by simp
  ultimately show ?thesis using m l by simp
qed

text \<open>
  Claim C4, amended. When the declared phase names are pairwise distinct and no
  interaction row carries a negative user id, then for every phase index \<open>k\<close> and every
  user \<open>u\<close> the set stored under phase \<open>k\<close> is the union of the user's interacted items
  over the datasets of phases \<open>0..k\<close>, it contains the set stored under phase \<open>k - 1\<close>, and
  \<^verbatim>\<open>sample_by_user_ids\<close> leaves the stored sets as they are.
\<close>

theorem cumulative_seen_sets:
  assumes "init shuffle phases0 datasets0 distribution = Inr s"
    and "distinct (as_list phases0)"
    and "\<forall>d\<in>set (as_list datasets0). \<forall>row\<in>set (inter_feat d). 0 \<le> fst row"
    and "k < length (phases s)" and "0 \<le> u" and "u < n_users s"
  shows "(\<exists>rows. map_of (used_item_id s) (phases s ! k) = Some rows \<and>
            length rows = nat (n_users s)) \<and>
         seen_set s (phases s ! k) u = cumulative (datasets s) k u \<and>
         (0 < k \<longrightarrow> seen_set s (phases s ! (k - 1)) u \<subseteq> seen_set s (phases s ! k) u) \<and>
         (sample_by_user_ids s phase user_ids num = Some (r, s') \<longrightarrow>
            used_item_id s' = used_item_id s)"
proof -
  from init_seen[OF assms] have here:
    "\<exists>rows. map_of (used_item_id s) (phases s ! k) = Some rows \<and>
       length rows = nat (n_users s)"
    "seen_set s (phases s ! k) u = cumulative (datasets s) k u" by blast+
  have mono: "0 < k \<longrightarrow> seen_set s (phases s ! (k - 1)) u \<subseteq> seen_set s (phases s ! k) u"
  proof
    assume "0 < k"
    with assms(4) have "k - 1 < length (phases s)" by simp
    from init_seen[OF assms(1-3) this assms(5,6)]
    have "seen_set s (phases s ! (k - 1)) u = cumulative (datasets s) (k - 1) u" by blast
    with here(2) cumulative_mono[of "k - 1" k "datasets s" u]
    show "seen_set s (phases s ! (k - 1)) u \<subseteq> seen_set s (phases s ! k) u" by simp
  qed
  have keep: "sample_by_user_ids s phase user_ids num = Some (r, s') \<longrightarrow>
      used_item_id s' = used_item_id s"
  proof
    assume "sample_by_user_ids s phase user_ids num = Some (r, s')"
    from sample_by_user_ids_advanced[OF this] show "used_item_id s' = used_item_id s"
      by (simp add: advanced_fields)
  qed
  from here mono keep show ?thesis by blast
qed

lemma staged_init:
  "init id (Listed [''train'', ''valid'']) (Listed staged_datasets) ''uniform'' = Inr staged_sampler"
  by (simp add: init_def legal_distribution_def build_pool_def staged_datasets_def
      staged_sampler_def add_used_def np_pos_def upto.simps insert_commute)

lemma renamed_init:
  "init id (Listed [''train'', ''valid'', ''train'']) (Listed renamed_datasets) ''uniform'' =
     Inr renamed_sampler"
  by (simp add: init_def legal_distribution_def build_pool_def renamed_datasets_def
      renamed_sampler_def add_used_def np_pos_def upto.simps insert_commute)

text \<open>
  As stated, without the distinctness of the names, the claim fails: with the phases
  \<^verbatim>\<open>train, valid, train\<close> the third phase replaces the entry of the first, so the set stored
  for phase 1 does not contain the set stored for phase 0.
\<close>

theorem cumulative_seen_sets_counterexample:
  "init id (Listed [''train'', ''valid'', ''train'']) (Listed renamed_datasets) ''uniform'' =
     Inr renamed_sampler \<and>
   phases renamed_sampler ! 0 = ''train'' \<and> phases renamed_sampler ! 1 = ''valid'' \<and>
   seen_set renamed_sampler ''train'' 0 = {1, 2, 3} \<and>
   seen_set renamed_sampler ''valid'' 0 = {1, 2} \<and>
   cumulative (datasets renamed_sampler) 1 0 = {1, 2} \<and>
   \<not> seen_set renamed_sampler (phases renamed_sampler ! 0) 0
       \<subseteq> seen_set renamed_sampler (phases renamed_sampler ! 1) 0"
proof -
  have a: "seen_set renamed_sampler ''train'' 0 = {1, 2, 3}"
    by (simp add: seen_set_def renamed_sampler_def np_index_def np_pos_def)
  have b: "seen_set renamed_sampler ''valid'' 0 = {1, 2}"
    by (simp add: seen_set_def renamed_sampler_def np_index_def np_pos_def)
  have c: "cumulative (datasets renamed_sampler) 1 0 = {1, 2}"
    by (auto simp: cumulative_def interacted_def renamed_sampler_def renamed_datasets_def)
  have p: "phases renamed_sampler ! 0 = ''train''" "phases renamed_sampler ! 1 = ''valid''"
    by (simp_all add: renamed_sampler_def)
  have "\<not> ({1, 2, 3} \<subseteq> {1, 2::int})" by simp
  with a b c p renamed_init show ?thesis by simp
qed

theorem cumulative_seen_sets_witness:
  "init id (Listed [''train'', ''valid'']) (Listed staged_datasets) ''uniform'' = Inr staged_sampler \<and>
   distinct (as_list (Listed [''train'', ''valid''])) \<and>
   list_all (\<lambda>d. list_all (\<lambda>row. 0 \<le> fst row) (inter_feat d)) (as_list (Listed staged_datasets)) \<and>
   1 < length (phases staged_sampler) \<and> (0::int) \<le> 0 \<and> 0 < n_users staged_sampler \<and>
   seen_set staged_sampler (phases staged_sampler ! 1) 0 = cumulative (datasets staged_sampler) 1 0 \<and>
   seen_set staged_sampler (phases staged_sampler ! (1 - 1)) 0
     \<subseteq> seen_set staged_sampler (phases staged_sampler ! 1) 0"
proof -
  have d: "distinct (as_list (Listed [''train'', ''valid'']))" by simp
  have n': "list_all (\<lambda>d. list_all (\<lambda>row. 0 \<le> fst row) (inter_feat d))
      (as_list (Listed staged_datasets))"
    by (simp add: staged_datasets_def)
  then have n: "\<forall>d\<in>set (as_list (Listed staged_datasets)). \<forall>row\<in>set (inter_feat d). 0 \<le> fst row"
    by (simp add: list_all_iff)
  have k: "1 < length (phases staged_sampler)" by (simp add: staged_sampler_def)
  have u: "(0::int) \<le> 0" "0 < n_users staged_sampler" by (simp_all add: staged_sampler_def)
  note th = cumulative_seen_sets[OF staged_init d n k u,
      of "''train''" "[]" 0 "Inr PyNone" staged_sampler]
  have eq: "seen_set staged_sampler (phases staged_sampler ! 1) 0 =
          cumulative (datasets staged_sampler) 1 0"
    by (rule th[THEN conjunct2, THEN conjunct1])
  have "(0::nat) < 1 \<longrightarrow> seen_set staged_sampler (phases staged_sampler ! (1 - 1)) 0
          \<subseteq> seen_set staged_sampler (phases staged_sampler ! 1) 0"
    by (rule th[THEN conjunct2, THEN conjunct2, THEN conjunct1])
  then have sub: "seen_set staged_sampler (phases staged_sampler ! (1 - 1)) 0
          \<subseteq> seen_set staged_sampler (phases staged_sampler ! 1) 0" by simp
  from staged_init d n' k u eq sub show ?thesis
    by (intro conjI) assumption+
qed

subsection \<open>Sampling for a batch of users\<close>

lemma np_index_in_range:
  "0 \<le> u \<Longrightarrow> u < int (length rows) \<Longrightarrow> np_index rows u = Inr (rows ! nat u)"
  by (simp add: np_index_def np_pos_in_range)

lemma fancy_index_in_range:
  "\<forall>u\<in>set us. 0 \<le> u \<and> u < int (length rows) \<Longrightarrow>
   fancy_index rows us = Inr (map (\<lambda>u. rows ! nat u) us)"
  by (induction us) (simp_all add: np_index_in_range)

lemma np_index_Inl: "np_index rows u = Inl e \<longleftrightarrow>
    e = IndexError \<and> (u < - int (length rows) \<or> int (length rows) \<le> u)"
  by (auto simp: np_index_def np_pos_def split: sum.splits if_splits)

lemma fancy_index_Inl:
  "fancy_index rows us = Inl e \<longleftrightarrow>
     e = IndexError \<and> (\<exists>u\<in>set us. u < - int (length rows) \<or> int (length rows) \<le> u)"
proof (induction us)
  case Nil
  then show ?case by simp
next
  case (Cons u us)
  show ?case
  proof (cases "np_index rows u")
    case (Inl e')
    then show ?thesis using np_index_Inl[of rows u e'] by auto
  next
    case (Inr r)
    then have "\<not> (u < - int (length rows) \<or> int (length rows) \<le> u)"
      using np_index_Inl[of rows u IndexError] by auto
    with Inr Cons.IH show ?thesis by (auto split: sum.splits)
  qed
qed

lemma concat_replicate_length: "length (concat (map (replicate n) xs)) = length xs * n"
  by (induction xs) simp_all

lemma concat_replicate_nth:
  "i < length xs * n \<Longrightarrow> concat (map (replicate n) xs) ! i = xs ! (i div n)"
proof (induction xs arbitrary: i)
  case Nil
  then show ?case by simp
next
  case (Cons x xs)
  from Cons.prems have n: "0 < n" by (cases n) simp_all
  show ?case
  proof (cases "i < n")
    case True
    then show ?thesis by (simp add: nth_append)
  next
    case False
    with Cons.prems have "i - n < length xs * n" by simp
    from Cons.IH[OF this] have IH: "concat (map (replicate n) xs) ! (i - n) = xs ! ((i - n) div n)" .
    from False have "i div n = ((i - n) + n) div n" by simp
    also from n have "\<dots> = (i - n) div n + 1" by simp
    finally have "i div n = Suc ((i - n) div n)" by simp
    with IH False show ?thesis by (simp add: nth_append)
  qed
qed

lemma sampler_ok_advanced: "sampler_ok s \<Longrightarrow> advanced s s' \<Longrightarrow> sampler_ok s'"
  by (simp add: sampler_ok_def advanced_fields)

lemma sample_loop_finds:
  assumes "random_item_list_length s = length (random_item_list s)"
    and "\<forall>used\<in>set useds. \<exists>x\<in>set (random_item_list s). x \<notin> used"
  shows "\<exists>cs s'. sample_loop useds s = Some (Inr cs, s') \<and> length cs = length useds \<and>
           (\<forall>i<length useds. cs ! i \<in> set (random_item_list s) \<and> cs ! i \<notin> useds ! i)"
  using assms
proof (induction useds arbitrary: s)
  case Nil
  then show ?case by simp
next
  case (Cons used rest)
  from Cons.prems have "\<exists>x\<in>set (random_item_list s). x \<notin> used" by simp
  from draw_finds[OF Cons.prems(1) this] obtain c j where
    d: "draw used s = Some (Inr c, s\<lparr>random_pr := random_pr s + j\<rparr>)"
    and c: "c \<in> set (random_item_list s)" "c \<notin> used" by blast
  let ?s1 = "s\<lparr>random_pr := random_pr s + j\<rparr>"
  have "\<exists>cs s'. sample_loop rest ?s1 = Some (Inr cs, s') \<and> length cs = length rest \<and>
           (\<forall>i<length rest. cs ! i \<in> set (random_item_list ?s1) \<and> cs ! i \<notin> rest ! i)"
    using Cons.prems by (intro Cons.IH) simp_all
  then obtain cs s' where l: "sample_loop rest ?s1 = Some (Inr cs, s')" "length cs = length rest"
    and cs: "\<forall>i<length rest. cs ! i \<in> set (random_item_list s) \<and> cs ! i \<notin> rest ! i"
    by auto
  have "\<forall>i<length (used # rest). (c # cs) ! i \<in> set (random_item_list s) \<and>
      (c # cs) ! i \<notin> (used # rest) ! i"
  proof (intro allI impI)
    fix i assume "i < length (used # rest)"
    with c cs show "(c # cs) ! i \<in> set (random_item_list s) \<and> (c # cs) ! i \<notin> (used # rest) ! i"
      by (cases i) simp_all
  qed
  with d l show ?case by simp
qed

lemma sampler_ok_lookup:
  assumes "sampler_ok s" and "phase \<in> set (phases s)"
  shows "\<exists>rows. map_of (used_item_id s) phase = Some rows \<and> length rows = nat (n_users s)"
proof -
  from assms have "phase \<in> fst ` set (used_item_id s)" by (simp add: sampler_ok_def)
  then obtain rows where m: "map_of (used_item_id s) phase = Some rows"
    by (cases "map_of (used_item_id s) phase") (auto simp: map_of_eq_None_iff)
  then have "(phase, rows) \<in> set (used_item_id s)" by (rule map_of_SomeD)
  then have "rows \<in> set (map snd (used_item_id s))" by force
  with assms(1) have "length rows = nat (n_users s)" unfolding sampler_ok_def by blast
  with m show ?thesis by blast
qed

lemma sampler_ok_unknown:
  assumes "sampler_ok s" and "phase \<notin> set (phases s)"
  shows "map_of (used_item_id s) phase = None"
  using assms by (simp add: sampler_ok_def map_of_eq_None_iff)

text \<open>Construction establishes the state that the sampling theorems start from.\<close>

lemma init_sampler_ok:
  assumes init: "init shuffle phases0 datasets0 distribution = Inr s"
    and perm: "\<And>xs. mset (shuffle xs) = mset xs"
    and items: "distribution = ''popularity'' \<longrightarrow>
      (\<forall>d\<in>set (as_list datasets0). \<forall>row\<in>set (inter_feat d). 0 \<le> snd row \<and> snd row < n_items s)"
  shows "sampler_ok s"
proof -
  from init obtain d0 rest pool0 used where
    legal: "distribution \<in> legal_distribution"
    and len: "length (as_list phases0) = length (as_list datasets0)"
    and ds: "as_list datasets0 = d0 # rest"
    and pool: "build_pool distribution (item_num d0) (as_list datasets0) = Inr pool0"
    and used: "build_used (replicate (nat (user_num d0)) {}) []
        (zip (as_list phases0) (as_list datasets0)) = Inr used"
    and s: "s = \<lparr>phases = as_list phases0, datasets = as_list datasets0,
          n_users = user_num d0, n_items = item_num d0,
          random_item_list = shuffle pool0, random_pr = 0,
          random_item_list_length = length (shuffle pool0),
          used_item_id = used\<rparr>"
    by (rule init_InrE)
  have a: "random_item_list_length s = length (random_item_list s)" using s by simp
  from build_used_keys[OF used] len have "set (map fst used) = set (as_list phases0)" by simp
  with s have b: "set (map fst (used_item_id s)) = set (phases s)" by simp
  have "\<forall>rows\<in>set (map snd used). length rows = length (replicate (nat (user_num d0)) ({}::int set))"
    by (rule build_used_lengths[OF used]) simp
  with s have c: "\<forall>rows\<in>set (map snd (used_item_id s)). length rows = nat (n_users s)" by simp
  have setp: "set (shuffle pool0) = set pool0" using perm[of pool0] by (rule mset_eq_setD)
  have "\<forall>x\<in>set pool0. 0 \<le> x \<and> x < item_num d0"
  proof (cases "distribution = ''uniform''")
    case True
    with pool have "pool0 = [0..item_num d0 - 1]" by (simp add: build_pool_def)
    then show ?thesis by auto
  next
    case False
    with legal have p: "distribution = ''popularity''" by (simp add: legal_distribution_def)
    with pool have "pool0 = concat (map (\<lambda>d. map snd (inter_feat d)) (as_list datasets0))"
      by (simp add: build_pool_def)
    with items p s show ?thesis by auto
  qed
  with setp s have d: "\<forall>x\<in>set (random_item_list s). 0 \<le> x \<and> x < n_items s" by simp
  from a b c d show ?thesis unfolding sampler_ok_def by blast
qed

lemma sample_body_valid:
  assumes ok: "sampler_ok s" and ph: "phase \<in> set (phases s)"
    and us: "\<forall>u\<in>set user_ids. 0 \<le> u \<and> u < n_users s"
    and un: "\<forall>u\<in>set user_ids. \<exists>x\<in>set (random_item_list s). x \<notin> seen_set s phase u"
  shows "\<exists>ids s'. sample_body s phase user_ids num = Some (Inr ids, s') \<and>
           length ids = length user_ids * num \<and>
           (\<forall>i<length ids. ids ! i \<in> set (random_item_list s) \<and>
               ids ! i \<notin> seen_set s phase (user_ids ! (i div num)))"
proof -
  from sampler_ok_lookup[OF ok ph] obtain rows where
    m: "map_of (used_item_id s) phase = Some rows" and lr: "length rows = nat (n_users s)" by blast
  from us lr have inr: "\<forall>u\<in>set user_ids. 0 \<le> u \<and> u < int (length rows)" by auto
  let ?sel = "map (\<lambda>u. rows ! nat u) user_ids"
  let ?useds = "concat (map (replicate num) ?sel)"
  from fancy_index_in_range[OF inr] have fi: "fancy_index rows user_ids = Inr ?sel" .
  have seen: "\<And>u. u \<in> set user_ids \<Longrightarrow> seen_set s phase u = rows ! nat u"
    using inr by (simp add: seen_set_lookup[OF m])
  from ok have len: "random_item_list_length s = length (random_item_list s)"
    by (simp add: sampler_ok_def)
  have "\<forall>used\<in>set ?useds. \<exists>x\<in>set (random_item_list s). x \<notin> used"
  proof
    fix used assume "used \<in> set ?useds"
    then obtain u where "u \<in> set user_ids" "used = rows ! nat u" by auto
    with un seen show "\<exists>x\<in>set (random_item_list s). x \<notin> used" by auto
  qed
  from sample_loop_finds[OF len this] obtain cs s' where
    l: "sample_loop ?useds s = Some (Inr cs, s')" and lc: "length cs = length ?useds"
    and cs: "\<forall>i<length ?useds. cs ! i \<in> set (random_item_list s) \<and> cs ! i \<notin> ?useds ! i"
    by blast
  have lu: "length ?useds = length user_ids * num"
    using concat_replicate_length[of num ?sel] by simp
  have "\<forall>i<length cs. cs ! i \<in> set (random_item_list s) \<and>
               cs ! i \<notin> seen_set s phase (user_ids ! (i div num))"
  proof (intro allI impI)
    fix i assume i: "i < length cs"
    with lc lu have i': "i < length ?sel * num" by simp
    then have "0 < num" by (cases num) simp_all
    with i lc lu have d: "i div num < length user_ids"
      by (simp add: less_mult_imp_div_less)
    from concat_replicate_nth[OF i'] d have "?useds ! i = rows ! nat (user_ids ! (i div num))"
      by simp
    also from d have "\<dots> = seen_set s phase (user_ids ! (i div num))"
      by (simp add: seen)
    finally show "cs ! i \<in> set (random_item_list s) \<and>
               cs ! i \<notin> seen_set s phase (user_ids ! (i div num))"
      using cs i lc by auto
  qed
  with l lc lu m fi show ?thesis by (simp add: sample_body_def)
qed


text \<open>
  Claim C1, amended. For a valid call (declared phase, every user id in \<open>[0, n_users)\<close>,
  an unseen pool entry for each requested user) on a sampler in the state construction
  leaves, the call returns an array of \<open>length user_ids * num\<close> ids; the id in slot \<open>i\<close> is
  a pool entry, lies in \<open>[0, n_items)\<close> and is not in the seen set of
  \<open>user_ids[i div num]\<close>; the sampler is left in such a state again. Item 0 is not
  excluded: it is returned like any other id that the user has not seen.
\<close>

theorem sample_by_user_ids_valid:
  assumes "sampler_ok s" and "phase \<in> set (phases s)"
    and "\<forall>u\<in>set user_ids. 0 \<le> u \<and> u < n_users s"
    and "\<forall>u\<in>set user_ids. \<exists>x\<in>set (random_item_list s). x \<notin> seen_set s phase u"
  shows "\<exists>ids s'. sample_by_user_ids s phase user_ids num = Some (Inr (Array ids), s') \<and>
           length ids = length user_ids * num \<and>
           (\<forall>i<length ids. ids ! i \<in> set (random_item_list s) \<and>
               0 \<le> ids ! i \<and> ids ! i < n_items s \<and>
               ids ! i \<notin> seen_set s phase (user_ids ! (i div num))) \<and>
           sampler_ok s'"
proof -
  from sample_body_valid[OF assms, of num] obtain ids s' where
    b: "sample_body s phase user_ids num = Some (Inr ids, s')"
    and l: "length ids = length user_ids * num"
    and ids: "\<forall>i<length ids. ids ! i \<in> set (random_item_list s) \<and>
               ids ! i \<notin> seen_set s phase (user_ids ! (i div num))"
    by blast
  from b have r: "sample_by_user_ids s phase user_ids num = Some (Inr (Array ids), s')"
    by (simp add: sample_by_user_ids_def)
  from sample_by_user_ids_advanced[OF r] assms(1) have ok': "sampler_ok s'"
    by (simp add: sampler_ok_advanced)
  from assms(1) have "\<forall>x\<in>set (random_item_list s). 0 \<le> x \<and> x < n_items s"
    by (simp add: sampler_ok_def)
  with ids have "\<forall>i<length ids. ids ! i \<in> set (random_item_list s) \<and>
               0 \<le> ids ! i \<and> ids ! i < n_items s \<and>
               ids ! i \<notin> seen_set s phase (user_ids ! (i div num))"
    by blast
  with r l ok' show ?thesis by blast
qed

lemma scenario_ok: "sampler_ok scenario_sampler"
  by (simp add: sampler_ok_def scenario_sampler_def)

lemma scenario_seen: "seen_set scenario_sampler ''train'' 0 = {1, 2}"
  by (simp add: seen_set_def scenario_sampler_def np_index_def np_pos_def)

theorem sample_by_user_ids_valid_witness:
  "sampler_ok scenario_sampler \<and> ''train'' \<in> set (phases scenario_sampler) \<and>
   (0::int) \<le> 0 \<and> 0 < n_users scenario_sampler \<and>
   (\<exists>x\<in>set (random_item_list scenario_sampler). x \<notin> seen_set scenario_sampler ''train'' 0) \<and>
   (\<exists>ids s'. sample_by_user_ids scenario_sampler ''train'' [0] 3 = Some (Inr (Array ids), s') \<and>
      length ids = length [0::int] * 3 \<and>
      (\<forall>i<length ids. ids ! i \<in> set (random_item_list scenario_sampler) \<and>
          0 \<le> ids ! i \<and> ids ! i < n_items scenario_sampler \<and>
          ids ! i \<notin> seen_set scenario_sampler ''train'' ([0] ! (i div 3))) \<and>
      sampler_ok s')"
proof -
  have ph: "''train'' \<in> set (phases scenario_sampler)" by (simp add: scenario_sampler_def)
  have u0: "(0::int) \<le> 0" "0 < n_users scenario_sampler"
    by (simp_all add: scenario_sampler_def)
  have ex: "\<exists>x\<in>set (random_item_list scenario_sampler). x \<notin> seen_set scenario_sampler ''train'' 0"
    by (simp add: scenario_seen) (simp add: scenario_sampler_def)
  from u0 have us: "\<forall>u\<in>set [0]. 0 \<le> u \<and> u < n_users scenario_sampler" by simp
  from ex have un: "\<forall>u\<in>set [0]. \<exists>x\<in>set (random_item_list scenario_sampler).
       x \<notin> seen_set scenario_sampler ''train'' u" by simp
  note th = sample_by_user_ids_valid[OF scenario_ok ph us un, of 3]
  from scenario_ok ph u0 ex th show ?thesis
    by (intro conjI) assumption+
qed

text \<open>
  As stated the claim fails in its own scenario: when the shuffle leaves the pool
  \<open>[0, 1, 2, 3, 4]\<close> in order, the three ids returned for user 0 are 0, 3 and 4.
\<close>

lemma scenario_loop: "sample_loop [{1, 2}, {1, 2}, {1, 2}] scenario_sampler =
     Some (Inr [0, 3, 4], scenario_sampler\<lparr>random_pr := 5\<rparr>)"
  by (simp add: scenario_sampler_def draw_def random_item_def resample_stop resample_step)

lemma scenario_body: "sample_body scenario_sampler ''train'' [0] 3 =
     Some (Inr [0, 3, 4], scenario_sampler\<lparr>random_pr := 5\<rparr>)"
proof -
  have sel: "map_of (used_item_id scenario_sampler) ''train'' = Some [{1, 2}, {}]"
    by (simp add: scenario_sampler_def)
  have fi: "fancy_index [{1, 2}, {}] [0] = Inr [{1, 2::int}]"
    by (simp add: np_index_def np_pos_def)
  have rep: "concat (map (replicate 3) [{1, 2::int}]) = [{1, 2}, {1, 2}, {1, 2}]"
    by (simp add: numeral_3_eq_3)
  show ?thesis
    unfolding sample_body_def sel option.case fi sum.case rep by (rule scenario_loop)
qed

theorem sample_by_user_ids_valid_counterexample:
  "init id (Single ''train'') (Single scenario_dataset) ''uniform'' = Inr scenario_sampler \<and>
   seen_set scenario_sampler ''train'' 0 = {1, 2} \<and>
   sample_by_user_ids scenario_sampler ''train'' [0] 3 =
     Some (Inr (Array [0, 3, 4]), scenario_sampler\<lparr>random_pr := 5\<rparr>) \<and>
   \<not> set [0, 3, 4] \<subseteq> {3, 4::int}"
proof -
  have "sample_by_user_ids scenario_sampler ''train'' [0] 3 =
     Some (Inr (Array [0, 3, 4]), scenario_sampler\<lparr>random_pr := 5\<rparr>)"
    unfolding sample_by_user_ids_def scenario_body by simp
  with scenario_init scenario_seen show ?thesis by simp
qed

subsection \<open>The lookup errors\<close>

lemma sample_unknown_phase:
  assumes "sampler_ok s" and "phase \<notin> set (phases s)"
  shows "sample_by_user_ids s phase user_ids num = Some (Inl (ValueError_phase phase), s)"
  using assms sampler_ok_unknown[OF assms]
  by (simp add: sample_by_user_ids_def sample_body_def)

lemma first_bad_user_Some:
  "\<exists>u\<in>set us. u < 0 \<or> n \<le> u \<Longrightarrow>
   \<exists>u. first_bad_user n us = Some u \<and> u \<in> set us \<and> (u < 0 \<or> n \<le> u)"
  by (induction us) auto

lemma sample_user_out_of_range:
  assumes ok: "sampler_ok s" and ph: "phase \<in> set (phases s)"
    and bad: "\<exists>u\<in>set user_ids. u < - n_users s \<or> n_users s \<le> u" and n: "0 \<le> n_users s"
  shows "\<exists>u. sample_by_user_ids s phase user_ids num = Some (Inl (ValueError_user_id u), s) \<and>
           first_bad_user (n_users s) user_ids = Some u \<and>
           u \<in> set user_ids \<and> (u < 0 \<or> n_users s \<le> u)"
proof -
  from sampler_ok_lookup[OF ok ph] obtain rows where
    m: "map_of (used_item_id s) phase = Some rows" and lr: "length rows = nat (n_users s)" by blast
  from bad lr n have "\<exists>u\<in>set user_ids. u < - int (length rows) \<or> int (length rows) \<le> u"
    by simp
  then have fi: "fancy_index rows user_ids = Inl IndexError"
    by (simp add: fancy_index_Inl)
  from m fi have b: "sample_body s phase user_ids num = Some (Inl IndexError, s)"
    by (simp add: sample_body_def)
  from bad obtain u0 where u0: "u0 \<in> set user_ids" "u0 < - n_users s \<or> n_users s \<le> u0"
    by blast
  from u0(2) n have "u0 < 0 \<or> n_users s \<le> u0" by linarith
  with u0(1) have "\<exists>u\<in>set user_ids. u < 0 \<or> n_users s \<le> u" by blast
  from first_bad_user_Some[OF this] obtain u where
    u: "first_bad_user (n_users s) user_ids = Some u" "u \<in> set user_ids" "u < 0 \<or> n_users s \<le> u"
    by blast
  from b u(1) have "sample_by_user_ids s phase user_ids num = Some (Inl (ValueError_user_id u), s)"
    by (simp add: sample_by_user_ids_def)
  with u show ?thesis by blast
qed

text \<open>
  Claim C2 at the input where the code departs from it: a user id in \<open>[-n_users, 0)\<close> is
  outside \<open>[0, n_users)\<close>, but indexing the array of sets with it raises nothing, it
  selects the set of user \<open>n_users + id\<close>. With \<open>n_users = 2\<close> the call for user \<open>-1\<close>
  returns a sample drawn against user 1's seen set instead of raising the
  \<^verbatim>\<open>user_id [-1] not exist\<close> error.
\<close>

theorem sample_negative_user_id_accepted:
  "n_users scenario_sampler = 2 \<and>
   sample_by_user_ids scenario_sampler ''train'' [- 1] 1 =
     Some (Inr (Array [0]), scenario_sampler\<lparr>random_pr := 1\<rparr>)"
proof -
  have sel: "map_of (used_item_id scenario_sampler) ''train'' = Some [{1, 2}, {}]"
    by (simp add: scenario_sampler_def)
  have fi: "fancy_index [{1, 2}, {}] [- 1] = Inr [{}::int set]"
    by (simp add: np_index_def np_pos_def)
  have rep: "concat (map (replicate 1) [{}::int set]) = [{}]"
    by simp
  have loop: "sample_loop [{}] scenario_sampler =
      Some (Inr [0], scenario_sampler\<lparr>random_pr := 1\<rparr>)"
    by (simp add: scenario_sampler_def draw_def random_item_def resample_stop)
  have "sample_body scenario_sampler ''train'' [- 1] 1 =
      Some (Inr [0], scenario_sampler\<lparr>random_pr := 1\<rparr>)"
    unfolding sample_body_def sel option.case fi sum.case rep by (rule loop)
  then have "sample_by_user_ids scenario_sampler ''train'' [- 1] 1 =
     Some (Inr (Array [0]), scenario_sampler\<lparr>random_pr := 1\<rparr>)"
    unfolding sample_by_user_ids_def by simp
  then show ?thesis by (simp add: scenario_sampler_def)
qed

section \<open>Properties of the FISSA model\<close>

subsection \<open>Construction: the loss\<close>

text \<open>
  Claim C6. A \<^verbatim>\<open>loss_type\<close> other than \<^verbatim>\<open>BPR\<close> and \<^verbatim>\<open>CE\<close> makes the constructor raise:
  no model object exists on which a forward pass could run. With \<^verbatim>\<open>BPR\<close> or \<^verbatim>\<open>CE\<close> the
  constructed model carries the matching loss, and every constructed model carries one of
  the two pairs, so the test \<^verbatim>\<open>self.loss_type == 'BPR'\<close> of \<^verbatim>\<open>calculate_loss\<close> agrees with
  \<^verbatim>\<open>self.loss_fct\<close>. No function of the model returns a changed model.
\<close>

theorem fissa_init_loss:
  "(cfg_loss_type cfg \<noteq> ''BPR'' \<and> cfg_loss_type cfg \<noteq> ''CE'' \<longrightarrow>
      fissa_init cfg p = Inl NotImplementedError_loss_type) \<and>
   (cfg_loss_type cfg = ''BPR'' \<longrightarrow>
      (\<exists>m. fissa_init cfg p = Inr m \<and> loss_type m = ''BPR'' \<and> loss_fct m = BPRLoss)) \<and>
   (cfg_loss_type cfg = ''CE'' \<longrightarrow>
      (\<exists>m. fissa_init cfg p = Inr m \<and> loss_type m = ''CE'' \<and> loss_fct m = CrossEntropyLoss)) \<and>
   (fissa_init cfg p = Inr m \<longrightarrow>
      loss_type m = cfg_loss_type cfg \<and>
      (loss_type m = ''BPR'' \<and> loss_fct m = BPRLoss \<or>
       loss_type m = ''CE'' \<and> loss_fct m = CrossEntropyLoss))"
  by (auto simp: fissa_init_def split: if_splits)

theorem fissa_init_loss_witness:
  "''MSE'' \<noteq> ''BPR'' \<and> ''MSE'' \<noteq> ''CE'' \<and>
   fissa_init \<lparr>cfg_loss_type = ''MSE'', cfg_n_layers = 2, cfg_n_heads = 2,
                cfg_hidden_size = 1, cfg_inner_size = 4\<rparr>
     \<lparr>p_w1 = [[1]], p_w2 = [[1]], p_q_s = [1], p_gating_weight = [0, 0, 0],
      p_gating_bias = 0, p_item_embedding = [[0], [1]], p_position_embedding = [[0]]\<rparr>
     = Inl NotImplementedError_loss_type \<and>
   (\<exists>m. fissa_init \<lparr>cfg_loss_type = ''BPR'', cfg_n_layers = 2, cfg_n_heads = 2,
                cfg_hidden_size = 1, cfg_inner_size = 4\<rparr>
     \<lparr>p_w1 = [[1]], p_w2 = [[1]], p_q_s = [1], p_gating_weight = [0, 0, 0],
      p_gating_bias = 0, p_item_embedding = [[0], [1]], p_position_embedding = [[0]]\<rparr>
     = Inr m \<and> loss_type m = ''BPR'' \<and> loss_fct m = BPRLoss) \<and>
   (\<exists>m. fissa_init \<lparr>cfg_loss_type = ''CE'', cfg_n_layers = 2, cfg_n_heads = 2,
                cfg_hidden_size = 1, cfg_inner_size = 4\<rparr>
     \<lparr>p_w1 = [[1]], p_w2 = [[1]], p_q_s = [1], p_gating_weight = [0, 0, 0],
      p_gating_bias = 0, p_item_embedding = [[0], [1]], p_position_embedding = [[0]]\<rparr>
     = Inr m \<and> loss_type m = ''CE'' \<and> loss_fct m = CrossEntropyLoss)"
  using
    fissa_init_loss[of "\<lparr>cfg_loss_type = ''MSE'', cfg_n_layers = 2, cfg_n_heads = 2,
                cfg_hidden_size = 1, cfg_inner_size = 4\<rparr>"
      "\<lparr>p_w1 = [[1]], p_w2 = [[1]], p_q_s = [1], p_gating_weight = [0, 0, 0],
      p_gating_bias = 0, p_item_embedding = [[0], [1]], p_position_embedding = [[0]]\<rparr>"]
    fissa_init_loss[of "\<lparr>cfg_loss_type = ''BPR'', cfg_n_layers = 2, cfg_n_heads = 2,
                cfg_hidden_size = 1, cfg_inner_size = 4\<rparr>"
      "\<lparr>p_w1 = [[1]], p_w2 = [[1]], p_q_s = [1], p_gating_weight = [0, 0, 0],
      p_gating_bias = 0, p_item_embedding = [[0], [1]], p_position_embedding = [[0]]\<rparr>"]
    fissa_init_loss[of "\<lparr>cfg_loss_type = ''CE'', cfg_n_layers = 2, cfg_n_heads = 2,
                cfg_hidden_size = 1, cfg_inner_size = 4\<rparr>"
      "\<lparr>p_w1 = [[1]], p_w2 = [[1]], p_q_s = [1], p_gating_weight = [0, 0, 0],
      p_gating_bias = 0, p_item_embedding = [[0], [1]], p_position_embedding = [[0]]\<rparr>"]
  by simp

subsection \<open>The fusion gate\<close>

lemma cat1_nth: "b < length a \<Longrightarrow> b < length a' \<Longrightarrow> cat1 a a' ! b = a ! b @ a' ! b"
  by (simp add: cat1_def)

lemma cat1_length: "length (cat1 a a') = min (length a) (length a')"
  by (simp add: cat1_def)

lemma unsqueeze1_repeat_nth:
  "b < length a \<Longrightarrow> unsqueeze1_repeat n a ! b = replicate n (a ! b)"
  by (simp add: unsqueeze1_repeat_def)

lemma unsqueeze1_repeat_length: "length (unsqueeze1_repeat n a) = length a"
  by (simp add: unsqueeze1_repeat_def)

lemma size1_rows: "t \<noteq> [] \<Longrightarrow> \<forall>row\<in>set t. length row = C \<Longrightarrow> size1 t = C"
  by (cases t) (simp_all add: size1_def)

lemma mul_bc_gate: "mul_bc x [g] = map (\<lambda>v. v * g) x"
  by (simp add: mul_bc_def)

lemma cal_final_nth:
  assumes B: "length seq_x = B" "length seq_y = B" "length last_embedding = B"
      "length candidates_embedding = B"
    and C: "\<forall>row\<in>set candidates_embedding. length row = C"
    and b: "b < B" and c: "c < C"
  shows "cal_final m seq_x seq_y last_embedding candidates_embedding ! b ! c =
           fuse (gate m (last_embedding ! b) (seq_y ! b) (candidates_embedding ! b ! c))
             (seq_x ! b) (seq_y ! b)"
    and "length (cal_final m seq_x seq_y last_embedding candidates_embedding) = B"
    and "length (cal_final m seq_x seq_y last_embedding candidates_embedding ! b) = C"
proof -
  from B b have ne: "candidates_embedding \<noteq> []" by auto
  from size1_rows[OF ne C] have s1: "size1 candidates_embedding = C" .
  from B b C have cb: "length (candidates_embedding ! b) = C" by simp
  let ?i1 = "cat1 last_embedding seq_y"
  let ?i2 = "unsqueeze1_repeat C ?i1"
  let ?i3 = "cat2 ?i2 candidates_embedding"
  let ?g = "map (map (\<lambda>v. map gating_sig (gating_lr m v))) ?i3"
  let ?xc = "unsqueeze1_repeat C seq_x"
  let ?yc = "unsqueeze1_repeat C seq_y"
  have l1: "length ?i1 = B" using B by (simp add: cat1_length)
  have l2: "length ?i2 = B" using l1 by (simp add: unsqueeze1_repeat_length)
  have i2b: "?i2 ! b = replicate C (last_embedding ! b @ seq_y ! b)"
    using l1 b B by (simp add: unsqueeze1_repeat_nth cat1_nth)
  have l3: "length ?i3 = B" using l2 B by (simp add: cat2_def)
  have i3b: "?i3 ! b = map2 (@) (?i2 ! b) (candidates_embedding ! b)"
    using l2 B b by (simp add: cat2_def)
  have l3b: "length (?i3 ! b) = C" using i3b i2b cb by simp
  have i3bc: "?i3 ! b ! c = last_embedding ! b @ seq_y ! b @ candidates_embedding ! b ! c"
    using i3b i2b cb c by simp
  have lg: "length ?g = B" using l3 by simp
  have lgb: "length (?g ! b) = C" using l3 l3b b by simp
  have gbc: "?g ! b ! c =
      [gate m (last_embedding ! b) (seq_y ! b) (candidates_embedding ! b ! c)]"
    using l3 l3b b c i3bc by (simp add: gating_lr_def gate_def)
  have xcb: "?xc ! b = replicate C (seq_x ! b)" "?yc ! b = replicate C (seq_y ! b)"
    using B b by (simp_all add: unsqueeze1_repeat_nth)
  have lxc: "length ?xc = B" "length ?yc = B"
    using B by (simp_all add: unsqueeze1_repeat_length)
  let ?gv = "gate m (last_embedding ! b) (seq_y ! b) (candidates_embedding ! b ! c)"
  have m1: "mul3 ?xc ?g ! b ! c = map (\<lambda>v. v * ?gv) (seq_x ! b)"
    using lxc lg lgb b c xcb gbc by (simp add: mul3_def mul_bc_gate)
  have lm1: "length (mul3 ?xc ?g) = B" "length (mul3 ?xc ?g ! b) = C"
    using lxc lg lgb b xcb by (simp_all add: mul3_def)
  have og: "length (one_minus ?g) = B" "length (one_minus ?g ! b) = C"
      "one_minus ?g ! b ! c = [1 - ?gv]"
    using lg lgb b c gbc by (simp_all add: one_minus_def)
  have m2: "mul3 ?yc (one_minus ?g) ! b ! c = map (\<lambda>v. v * (1 - ?gv)) (seq_y ! b)"
    using lxc og b c xcb by (simp add: mul3_def mul_bc_gate)
  have lm2: "length (mul3 ?yc (one_minus ?g)) = B" "length (mul3 ?yc (one_minus ?g) ! b) = C"
    using lxc og b xcb by (simp_all add: mul3_def)
  have cf: "cal_final m seq_x seq_y last_embedding candidates_embedding =
      add3 (mul3 ?xc ?g) (mul3 ?yc (one_minus ?g))"
    by (simp add: cal_final_def Let_def s1)
  show "cal_final m seq_x seq_y last_embedding candidates_embedding ! b ! c =
           fuse ?gv (seq_x ! b) (seq_y ! b)"
    unfolding cf using lm1 lm2 b c m1 m2 by (simp add: add3_def fuse_def)
  show "length (cal_final m seq_x seq_y last_embedding candidates_embedding) = B"
    unfolding cf using lm1 lm2 by (simp add: add3_def)
  show "length (cal_final m seq_x seq_y last_embedding candidates_embedding ! b) = C"
    unfolding cf using lm1 lm2 b by (simp add: add3_def)
qed

lemma rne_of_int: "rne (of_int n) = n"
  by (simp add: rne_def)

lemma rne_ge: "of_int n \<le> x \<Longrightarrow> n \<le> rne x"
proof -
  assume "of_int n \<le> x"
  then have "n \<le> \<lfloor>x\<rfloor>" by (simp add: le_floor_iff)
  then show ?thesis by (simp add: rne_def Let_def)
qed

lemma rne_le: "x \<le> of_int n \<Longrightarrow> rne x \<le> n"
proof (cases "x = of_int n")
  case True
  then show ?thesis by (simp add: rne_of_int)
next
  case False
  assume "x \<le> of_int n"
  with False have "x < of_int n" by simp
  then have "\<lfloor>x\<rfloor> < n" by (simp add: floor_less_iff)
  then show ?thesis by (simp add: rne_def Let_def)
qed

lemma two_powr_23: "(2::real) powr 23 = 8388608"
  by (simp add: powr_numeral)

lemma float32_round_pow2:
  assumes "- 126 \<le> k"
  shows "float32_round (2 powr of_int k) = 2 powr of_int k"
proof -
  let ?x = "(2::real) powr of_int k"
  let ?u = "(2::real) powr (of_int k - 23)"
  have l: "\<lfloor>log 2 \<bar>?x\<bar>\<rfloor> = k" by simp
  have split: "2 powr (23::real) * ?u = ?x"
  proof -
    have "2 powr (23::real) * ?u = 2 powr (23 + (of_int k - 23))"
      by (simp only: powr_add)
    also have "23 + (of_int k - 23) = (of_int k :: real)" by simp
    finally show ?thesis .
  qed
  have "?u \<noteq> 0" by simp
  with split have "?x / ?u = 2 powr (23::real)" by (simp add: field_simps)
  then have q: "?x / ?u = of_int 8388608" by (simp add: two_powr_23)
  have r: "of_int (rne (?x / ?u)) * ?u = ?x"
    unfolding q rne_of_int using split by (simp add: two_powr_23)
  have e: "max \<lfloor>log 2 \<bar>?x\<bar>\<rfloor> (- 126) = k" using assms l by (simp add: max_def)
  have "?x \<noteq> 0" by simp
  then show ?thesis unfolding float32_round_def Let_def e using r by simp
qed

lemma float32_round_values:
  "float32_round 1 = 1" "float32_round 2 = 2" "float32_round (1 / 2) = 1 / 2"
  using float32_round_pow2[of 0] float32_round_pow2[of 1] float32_round_pow2[of "- 1"]
  by (simp_all add: powr_minus)


lemma float32_round_nonneg: "0 \<le> x \<Longrightarrow> 0 \<le> float32_round x"
proof (cases "x = 0")
  case True
  then show ?thesis by (simp add: float32_round_def)
next
  case False
  assume "0 \<le> x"
  let ?u = "(2::real) powr (of_int (max \<lfloor>log 2 \<bar>x\<bar>\<rfloor> (- 126)) - 23)"
  have u: "0 < ?u" by simp
  with \<open>0 \<le> x\<close> have "of_int 0 \<le> x / ?u" by simp
  then have "0 \<le> rne (x / ?u)" by (rule rne_ge)
  with u False show ?thesis by (simp add: float32_round_def Let_def)
qed

lemma float32_round_ge_one:
  assumes "1 \<le> x"
  shows "1 \<le> float32_round x"
proof -
  let ?e = "\<lfloor>log 2 \<bar>x\<bar>\<rfloor>"
  let ?u = "(2::real) powr (of_int ?e - 23)"
  from assms have x: "0 < x" "\<bar>x\<bar> = x" by simp_all
  from assms have "0 \<le> log 2 x" by simp
  with x have e0: "0 \<le> ?e" by simp
  then have em: "max ?e (- 126) = ?e" by simp
  have "of_int ?e \<le> log 2 x" using x by simp
  then have "2 powr of_int ?e \<le> 2 powr log 2 x" by simp
  with x have lo: "2 powr of_int ?e \<le> x" by simp
  have split: "2 powr (23::real) * ?u = 2 powr of_int ?e"
  proof -
    have "2 powr (23::real) * ?u = 2 powr (23 + (of_int ?e - 23))"
      by (simp only: powr_add)
    also have "23 + (of_int ?e - 23) = (of_int ?e :: real)" by simp
    finally show ?thesis .
  qed
  have u: "0 < ?u" by simp
  from lo split have "2 powr (23::real) * ?u \<le> x" by simp
  with u have "2 powr (23::real) \<le> x / ?u" by (simp add: field_simps)
  then have "of_int 8388608 \<le> x / ?u" by (simp add: two_powr_23)
  then have "8388608 \<le> rne (x / ?u)" by (rule rne_ge)
  then have "(8388608::real) \<le> of_int (rne (x / ?u))" by linarith
  with u have "8388608 * ?u \<le> of_int (rne (x / ?u)) * ?u" by simp
  with split have "2 powr of_int ?e \<le> of_int (rne (x / ?u)) * ?u" by (simp add: two_powr_23)
  moreover from e0 have "(1::real) \<le> 2 powr of_int ?e"
    by (intro ge_one_powr_ge_zero) simp_all
  ultimately have "1 \<le> of_int (rne (x / ?u)) * ?u" by linarith
  with x em show ?thesis by (simp add: float32_round_def Let_def)
qed

lemma float32_round_le_one:
  assumes "0 \<le> x" and "x \<le> 1"
  shows "float32_round x \<le> 1"
proof (cases "x = 0 \<or> x = 1")
  case True
  then show ?thesis using float32_round_values(1) by (auto simp: float32_round_def)
next
  case False
  with assms have x: "0 < x" "x < 1" "\<bar>x\<bar> = x" by simp_all
  let ?e0 = "\<lfloor>log 2 \<bar>x\<bar>\<rfloor>"
  let ?e = "max ?e0 (- 126)"
  let ?u = "(2::real) powr (of_int ?e - 23)"
  from x have "log 2 x < 0" by simp
  with x have e0: "?e0 \<le> - 1" by (simp add: floor_le_iff)
  then have e: "?e \<le> - 1" "?e0 \<le> ?e" by simp_all
  have "log 2 x < of_int ?e0 + 1" using x by linarith
  then have "log 2 x < of_int ?e + 1" using e(2) by linarith
  then have "2 powr log 2 x < 2 powr (of_int ?e + 1)" by simp
  with x have hi: "x < 2 powr (of_int ?e + 1)" by simp
  have split: "2 powr (24::real) * ?u = 2 powr (of_int ?e + 1)"
  proof -
    have "2 powr (24::real) * ?u = 2 powr (24 + (of_int ?e - 23))"
      by (simp only: powr_add)
    also have "24 + (of_int ?e - 23) = (of_int ?e + 1 :: real)" by simp
    finally show ?thesis .
  qed
  have p24: "(2::real) powr 24 = 16777216" by (simp add: powr_numeral)
  have u: "0 < ?u" by simp
  from hi split have "x < 2 powr (24::real) * ?u" by simp
  with u have "x / ?u \<le> 2 powr (24::real)" by (simp add: field_simps)
  then have "x / ?u \<le> of_int 16777216" by (simp add: p24)
  then have "rne (x / ?u) \<le> 16777216" by (rule rne_le)
  then have "of_int (rne (x / ?u)) \<le> (16777216::real)" by linarith
  with u have "of_int (rne (x / ?u)) * ?u \<le> 16777216 * ?u" by simp
  with split have "of_int (rne (x / ?u)) * ?u \<le> 2 powr (of_int ?e + 1)" by (simp add: p24)
  moreover have "2 powr (of_int ?e + 1) \<le> (1::real)"
  proof -
    from e(1) have "(of_int ?e + 1 :: real) \<le> 0" by linarith
    from powr_mono[OF this, of 2] show ?thesis by simp
  qed
  ultimately have "of_int (rne (x / ?u)) * ?u \<le> 1" by linarith
  with x show ?thesis by (simp add: float32_round_def Let_def)
qed

lemma float32_round_tiny:
  assumes "0 \<le> x" and "x < 1 / 2 ^ 150"
  shows "float32_round x = 0"
proof (cases "x = 0")
  case True
  then show ?thesis by (simp add: float32_round_def)
next
  case False
  with assms have x: "0 < x" "\<bar>x\<bar> = x" by simp_all
  let ?e0 = "\<lfloor>log 2 \<bar>x\<bar>\<rfloor>"
  have p150: "(2::real) powr (- 150) = 1 / 2 ^ 150" by (simp add: powr_minus powr_numeral field_simps)
  have p149: "(2::real) powr (- 149) = 1 / 2 ^ 149" by (simp add: powr_minus powr_numeral field_simps)
  from assms(2) p150 have "x < 2 powr (- 150)" by simp
  with x have "log 2 x < - 150" by (simp add: log_less_iff)
  then have "?e0 < - 126" using x by (simp add: floor_less_iff)
  then have e: "max ?e0 (- 126) = - 126" by simp
  have u: "(2::real) powr (of_int (- 126) - 23) = 1 / 2 ^ 149" using p149 by simp
  define y where "y = x / (1 / 2 ^ 149)"
  from assms(2) have "x * 2 ^ 149 < 1 / 2" by (simp add: field_simps)
  then have y1: "y < 1 / 2" by (simp add: y_def)
  from x have y0: "0 \<le> y" by (simp add: y_def)
  from y0 y1 have fl: "\<lfloor>y\<rfloor> = 0" by (simp add: floor_eq_iff)
  have "rne y = 0" unfolding rne_def Let_def fl using y1 by simp
  then have "of_int (rne (x / (1 / 2 ^ 149))) * (1 / 2 ^ 149) = (0::real)"
    unfolding y_def by simp
  with False show ?thesis unfolding float32_round_def Let_def e u by simp
qed

lemma gating_sig_range: "0 \<le> gating_sig x \<and> gating_sig x \<le> 1"
proof -
  let ?e = "float32_round (exp (- x))"
  have e: "0 \<le> ?e" by (rule float32_round_nonneg) simp
  show ?thesis
  proof (cases "float32_max < ?e")
    case True
    then show ?thesis by (simp add: gating_sig_def)
  next
    case False
    from e have "1 \<le> float32_round (1 + ?e)" by (intro float32_round_ge_one) simp
    then have "0 \<le> 1 / float32_round (1 + ?e)" "1 / float32_round (1 + ?e) \<le> 1"
      by simp_all
    then have "0 \<le> float32_round (1 / float32_round (1 + ?e))"
      "float32_round (1 / float32_round (1 + ?e)) \<le> 1"
      by (simp_all add: float32_round_nonneg float32_round_le_one)
    with False show ?thesis by (simp add: gating_sig_def)
  qed
qed

lemma float32_max_ge: "1 \<le> float32_max"
  by (simp add: float32_max_def)

lemma gating_sig_zero: "gating_sig 0 = 1 / 2"
proof -
  have "\<not> float32_max < 1" using float32_max_ge by simp
  then show ?thesis by (simp add: gating_sig_def float32_round_values)
qed

lemma exp_minus_200: "exp (- 200 :: real) < 1 / 2 ^ 150"
proof -
  have "(2::real) \<le> exp 1" using exp_ge_add_one_self[of "1::real"] by simp
  then have "(2::real) ^ 200 \<le> exp 1 ^ 200" by (intro power_mono) simp_all
  also have "exp (1::real) ^ 200 = exp 200" using exp_of_nat_mult[of 200 "1::real"] by simp
  finally have "(2::real) ^ 200 \<le> exp 200" .
  moreover have "(2::real) ^ 150 < 2 ^ 200" by simp
  ultimately have "(2::real) ^ 150 < exp 200" by linarith
  then have "1 / exp (200::real) < 1 / 2 ^ 150" by (simp add: field_simps)
  then show ?thesis by (simp add: exp_minus field_simps)
qed

lemma gating_sig_saturates: "gating_sig 200 = 1"
proof -
  have "float32_round (exp (- 200)) = 0"
  proof (rule float32_round_tiny)
    show "0 \<le> exp (- 200 :: real)" by simp
    show "exp (- 200 :: real) < 1 / 2 ^ 150" by (rule exp_minus_200)
  qed
  moreover have "\<not> float32_max < 0" using float32_max_ge by simp
  ultimately show ?thesis by (simp add: gating_sig_def float32_round_values)
qed

lemma fuse_nth:
  "d < length x \<Longrightarrow> d < length y \<Longrightarrow> fuse g x y ! d = g * x ! d + (1 - g) * y ! d"
  by (simp add: fuse_def mult.commute)

lemma fuse_length: "length (fuse g x y) = min (length x) (length y)"
  by (simp add: fuse_def)


text \<open>
  Claim C7, amended. For tensors of the shapes \<open>[B, D]\<close>, \<open>[B, D]\<close>, \<open>[B, D]\<close> and
  \<open>[B, C, D]\<close>, \<^verbatim>\<open>cal_final\<close> returns a tensor of shape \<open>[B, C, D]\<close> whose entry
  \<open>(b, c, d)\<close> is \<open>g * x_l[b][d] + (1 - g) * y[b][d]\<close>, where \<open>g\<close> is the sigmoid of the
  linear gate applied to the concatenation, of length \<open>3 * D\<close>, of
  \<open>last_item_embedding[b]\<close>, \<open>y[b]\<close> and the embedding of candidate \<open>c\<close> of example \<open>b\<close>,
  and \<open>0 \<le> g \<le> 1\<close>. The gate of a candidate reads no other candidate; with \<open>C = 1\<close> it is
  the gate of the single candidate.
\<close>

theorem cal_final_gate:
  assumes "length seq_x = B" and "length seq_y = B" and "length last_embedding = B"
    and "length candidates_embedding = B"
    and "\<forall>row\<in>set candidates_embedding. length row = C"
    and "\<forall>v\<in>set seq_x. length v = D m" and "\<forall>v\<in>set seq_y. length v = D m"
    and "\<forall>v\<in>set last_embedding. length v = D m"
    and "\<forall>row\<in>set candidates_embedding. \<forall>v\<in>set row. length v = D m"
    and "b < B" and "c < C" and "d < D m"
  shows "length (cal_final m seq_x seq_y last_embedding candidates_embedding) = B \<and>
         length (cal_final m seq_x seq_y last_embedding candidates_embedding ! b) = C \<and>
         length (cal_final m seq_x seq_y last_embedding candidates_embedding ! b ! c) = D m \<and>
         length (last_embedding ! b @ seq_y ! b @ candidates_embedding ! b ! c) = 3 * D m \<and>
         0 \<le> gate m (last_embedding ! b) (seq_y ! b) (candidates_embedding ! b ! c) \<and>
         gate m (last_embedding ! b) (seq_y ! b) (candidates_embedding ! b ! c) \<le> 1 \<and>
         gate m (last_embedding ! b) (seq_y ! b) (candidates_embedding ! b ! c) =
           gating_sig (dot (last_embedding ! b @ seq_y ! b @ candidates_embedding ! b ! c)
                         (gating_lr_weight m) + gating_lr_bias m) \<and>
         cal_final m seq_x seq_y last_embedding candidates_embedding ! b ! c ! d =
           gate m (last_embedding ! b) (seq_y ! b) (candidates_embedding ! b ! c) * seq_x ! b ! d +
           (1 - gate m (last_embedding ! b) (seq_y ! b) (candidates_embedding ! b ! c)) * seq_y ! b ! d"
proof -
  note cf = cal_final_nth[OF assms(1-5) assms(10,11), of m]
  from assms have lx: "length (seq_x ! b) = D m" and ly: "length (seq_y ! b) = D m"
    and ll: "length (last_embedding ! b) = D m" by simp_all
  from assms have "candidates_embedding ! b \<in> set candidates_embedding" by simp
  with assms(5,9,11) have lc: "length (candidates_embedding ! b ! c) = D m" by simp
  from cf(1) lx ly have l3: "length (cal_final m seq_x seq_y last_embedding candidates_embedding ! b ! c) = D m"
    by (simp add: fuse_length)
  from cf(1) lx ly assms(12)
  have v: "cal_final m seq_x seq_y last_embedding candidates_embedding ! b ! c ! d =
           gate m (last_embedding ! b) (seq_y ! b) (candidates_embedding ! b ! c) * seq_x ! b ! d +
           (1 - gate m (last_embedding ! b) (seq_y ! b) (candidates_embedding ! b ! c)) * seq_y ! b ! d"
    by (simp add: fuse_nth)
  from ll ly lc have l: "length (last_embedding ! b @ seq_y ! b @ candidates_embedding ! b ! c) = 3 * D m"
    by simp
  have g: "0 \<le> gate m (last_embedding ! b) (seq_y ! b) (candidates_embedding ! b ! c)"
    "gate m (last_embedding ! b) (seq_y ! b) (candidates_embedding ! b ! c) \<le> 1"
    using gating_sig_range by (simp_all add: gate_def)
  have gd: "gate m (last_embedding ! b) (seq_y ! b) (candidates_embedding ! b ! c) =
           gating_sig (dot (last_embedding ! b @ seq_y ! b @ candidates_embedding ! b ! c)
                         (gating_lr_weight m) + gating_lr_bias m)"
    by (simp add: gate_def)
  from cf(2) cf(3) l3 l g gd v show ?thesis by (intro conjI) assumption+
qed

lemma small_gate: "gate small_model [0] [4] [3] = 1 / 2"
  by (simp add: gate_def small_model_def dot_def gating_sig_zero)

lemma gated_gate_zero: "gate gated_model [0] [4] [0] = 1 / 2"
  by (simp add: gate_def gated_model_def dot_def gating_sig_zero)

lemma gated_gate_large: "gate gated_model [0] [4] [200] = 1"
  by (simp add: gate_def gated_model_def dot_def gating_sig_saturates)

text \<open>
  One example with two candidates whose embeddings are 0 and 200: the first gate is
  \<open>1/2\<close> and the fused entry 3, the second gate is 1 and the fused entry is \<open>x_l\<close>.
\<close>

theorem cal_final_gate_witness:
  "length [[2::real]] = 1 \<and> length [[[0::real], [200]]] = 1 \<and> (1::nat) < 2 \<and>
   length (cal_final gated_model [[2]] [[4]] [[0]] [[[0], [200]]]) = 1 \<and>
   length (cal_final gated_model [[2]] [[4]] [[0]] [[[0], [200]]] ! 0) = 2 \<and>
   length (cal_final gated_model [[2]] [[4]] [[0]] [[[0], [200]]] ! 0 ! 1) = 1 \<and>
   0 \<le> gate gated_model [0] [4] [0] \<and> gate gated_model [0] [4] [0] \<le> 1 \<and>
   0 \<le> gate gated_model [0] [4] [200] \<and> gate gated_model [0] [4] [200] \<le> 1 \<and>
   cal_final gated_model [[2]] [[4]] [[0]] [[[0], [200]]] ! 0 ! 0 ! 0 = 3 \<and>
   cal_final gated_model [[2]] [[4]] [[0]] [[[0], [200]]] ! 0 ! 1 ! 0 = 2"
proof -
  have D: "D gated_model = 1" by (simp add: gated_model_def)
  have c0: "length (cal_final gated_model [[2]] [[4]] [[0]] [[[0], [200]]]) = 1 \<and>
     length (cal_final gated_model [[2]] [[4]] [[0]] [[[0], [200]]] ! 0) = 2 \<and>
     length (cal_final gated_model [[2]] [[4]] [[0]] [[[0], [200]]] ! 0 ! 0) = D gated_model \<and>
     length ([[0::real]] ! 0 @ [[4]] ! 0 @ [[[0], [200]]] ! 0 ! 0) = 3 * D gated_model \<and>
     0 \<le> gate gated_model ([[0]] ! 0) ([[4]] ! 0) ([[[0], [200]]] ! 0 ! 0) \<and>
     gate gated_model ([[0]] ! 0) ([[4]] ! 0) ([[[0], [200]]] ! 0 ! 0) \<le> 1 \<and>
     gate gated_model ([[0]] ! 0) ([[4]] ! 0) ([[[0], [200]]] ! 0 ! 0) =
       gating_sig (dot ([[0]] ! 0 @ [[4]] ! 0 @ [[[0], [200]]] ! 0 ! 0)
                     (gating_lr_weight gated_model) + gating_lr_bias gated_model) \<and>
     cal_final gated_model [[2]] [[4]] [[0]] [[[0], [200]]] ! 0 ! 0 ! 0 =
       gate gated_model ([[0]] ! 0) ([[4]] ! 0) ([[[0], [200]]] ! 0 ! 0) * [[2]] ! 0 ! 0 +
       (1 - gate gated_model ([[0]] ! 0) ([[4]] ! 0) ([[[0], [200]]] ! 0 ! 0)) * [[4]] ! 0 ! 0"
    by (rule cal_final_gate) (simp_all add: D)
  have c1: "length (cal_final gated_model [[2]] [[4]] [[0]] [[[0], [200]]]) = 1 \<and>
     length (cal_final gated_model [[2]] [[4]] [[0]] [[[0], [200]]] ! 0) = 2 \<and>
     length (cal_final gated_model [[2]] [[4]] [[0]] [[[0], [200]]] ! 0 ! 1) = D gated_model \<and>
     length ([[0::real]] ! 0 @ [[4]] ! 0 @ [[[0], [200]]] ! 0 ! 1) = 3 * D gated_model \<and>
     0 \<le> gate gated_model ([[0]] ! 0) ([[4]] ! 0) ([[[0], [200]]] ! 0 ! 1) \<and>
     gate gated_model ([[0]] ! 0) ([[4]] ! 0) ([[[0], [200]]] ! 0 ! 1) \<le> 1 \<and>
     gate gated_model ([[0]] ! 0) ([[4]] ! 0) ([[[0], [200]]] ! 0 ! 1) =
       gating_sig (dot ([[0]] ! 0 @ [[4]] ! 0 @ [[[0], [200]]] ! 0 ! 1)
                     (gating_lr_weight gated_model) + gating_lr_bias gated_model) \<and>
     cal_final gated_model [[2]] [[4]] [[0]] [[[0], [200]]] ! 0 ! 1 ! 0 =
       gate gated_model ([[0]] ! 0) ([[4]] ! 0) ([[[0], [200]]] ! 0 ! 1) * [[2]] ! 0 ! 0 +
       (1 - gate gated_model ([[0]] ! 0) ([[4]] ! 0) ([[[0], [200]]] ! 0 ! 1)) * [[4]] ! 0 ! 0"
    by (rule cal_final_gate) (simp_all add: D)
  from c0 c1 show ?thesis by (simp add: D gated_gate_zero gated_gate_large)
qed

text \<open>
  As stated, with the gate strictly between 0 and 1, the claim fails: for the logit 200
  the float32 sigmoid is exactly 1, the gate is 1 and the fused vector is \<open>x_l\<close> itself.
\<close>

theorem cal_final_gate_counterexample:
  "gate gated_model [0] [4] [200] = 1 \<and> \<not> gate gated_model [0] [4] [200] < 1 \<and>
   cal_final gated_model [[2]] [[4]] [[0]] [[[0], [200]]] ! 0 ! 1 = [2]"
proof -
  have l: "length [[2::real]] = 1" "length [[4::real]] = 1" "length [[0::real]] = 1"
    "length [[[0::real], [200]]] = 1" "\<forall>row\<in>set [[[0::real], [200]]]. length row = 2"
    "(0::nat) < 1" "(1::nat) < 2"
    by simp_all
  from cal_final_nth(1)[OF l, of gated_model]
  have "cal_final gated_model [[2]] [[4]] [[0]] [[[0], [200]]] ! 0 ! 1 =
      fuse (gate gated_model [0] [4] [200]) [2] [4]" by simp
  then show ?thesis by (simp add: gated_gate_large fuse_def)
qed

subsection \<open>Scoring one candidate and scoring the catalogue\<close>

lemma map_err_Inr:
  "map_err f xs = Inr ys \<Longrightarrow> length ys = length xs \<and> (\<forall>i<length xs. f (xs ! i) = Inr (ys ! i))"
proof (induction xs arbitrary: ys)
  case Nil
  then show ?case by simp
next
  case (Cons x xs)
  from Cons.prems obtain y ys' where y: "f x = Inr y" and r: "map_err f xs = Inr ys'"
    and ys: "ys = y # ys'"
    by (auto split: sum.splits)
  from Cons.IH[OF r] have IH: "length ys' = length xs" "\<forall>i<length xs. f (xs ! i) = Inr (ys' ! i)"
    by simp_all
  have "\<forall>i<length (x # xs). f ((x # xs) ! i) = Inr (ys ! i)"
  proof (intro allI impI)
    fix i assume "i < length (x # xs)"
    with y IH ys show "f ((x # xs) ! i) = Inr (ys ! i)" by (cases i) simp_all
  qed
  with IH ys show ?case by simp
qed

lemma embedding_Inr: "embedding W i = Inr v \<Longrightarrow> 0 \<le> i \<and> nat i < length W \<and> v = W ! nat i"
  by (auto simp: embedding_def split: if_splits)

lemma scores_nth:
  assumes B: "length seq_x = B" "length seq_y = B" "length last_embedding = B"
      "length cands = B"
    and C: "\<forall>row\<in>set cands. length row = C"
    and b: "b < B" and c: "c < C"
  shows "sum_last (mul3 (cal_final m seq_x seq_y last_embedding cands) cands) ! b ! c =
           score m (seq_x ! b) (seq_y ! b) (last_embedding ! b) (cands ! b ! c)"
    and "length (sum_last (mul3 (cal_final m seq_x seq_y last_embedding cands) cands)) = B"
    and "length (sum_last (mul3 (cal_final m seq_x seq_y last_embedding cands) cands) ! b) = C"
proof -
  note cf = cal_final_nth[OF B C b c, of m]
  from B b C have cb: "length (cands ! b) = C" by simp
  let ?cf = "cal_final m seq_x seq_y last_embedding cands"
  have lm: "length (mul3 ?cf cands) = B" using cf(2) B by (simp add: mul3_def)
  have mb: "mul3 ?cf cands ! b = map2 mul_bc (?cf ! b) (cands ! b)"
    using cf(2) B b by (simp add: mul3_def)
  have lmb: "length (mul3 ?cf cands ! b) = C" using mb cf(3) cb by simp
  have mbc: "mul3 ?cf cands ! b ! c = mul_bc (?cf ! b ! c) (cands ! b ! c)"
    using mb cf(3) cb c by simp
  show "sum_last (mul3 ?cf cands) ! b ! c =
      score m (seq_x ! b) (seq_y ! b) (last_embedding ! b) (cands ! b ! c)"
    using lm lmb b c mbc cf(1) by (simp add: sum_last_def score_def)
  show "length (sum_last (mul3 ?cf cands)) = B" using lm by (simp add: sum_last_def)
  show "length (sum_last (mul3 ?cf cands) ! b) = C" using lm lmb b by (simp add: sum_last_def)
qed

lemma predict_Inr:
  assumes "predict forward gather_indexes m item_seq item_seq_len test_item = Inr ps"
    and "forward item_seq item_seq_len = (seq_x, seq_y)"
  obtains seq_emb emb where
    "map_err (map_err (embedding (item_embedding m))) item_seq = Inr seq_emb"
    "map_err (embedding (item_embedding m)) test_item = Inr emb"
    "ps = sum_last (mul3
        (cal_final m seq_x seq_y (gather_indexes seq_emb (map (\<lambda>l. l - 1) item_seq_len))
           (map (\<lambda>v. [v]) emb))
        (map (\<lambda>v. [v]) emb))"
proof -
  from assms(1) obtain seq_emb where
    se: "map_err (map_err (embedding (item_embedding m))) item_seq = Inr seq_emb"
    by (cases "map_err (map_err (embedding (item_embedding m))) item_seq")
      (simp_all add: predict_def)
  from assms se obtain emb where
    te: "map_err (embedding (item_embedding m)) test_item = Inr emb"
    by (cases "map_err (embedding (item_embedding m)) test_item")
      (simp_all add: predict_def Let_def)
  from assms se te have "ps = sum_last (mul3
        (cal_final m seq_x seq_y (gather_indexes seq_emb (map (\<lambda>l. l - 1) item_seq_len))
           (map (\<lambda>v. [v]) emb))
        (map (\<lambda>v. [v]) emb))"
    by (simp add: predict_def Let_def)
  with se te show thesis by (rule that)
qed

text \<open>
  Claim C10. In evaluation mode \<^verbatim>\<open>forward\<close> is a function of the batch. When \<^verbatim>\<open>predict\<close>
  returns, \<^verbatim>\<open>full_sort_predict\<close> on the same sequences and lengths returns too, and for
  every example \<open>b\<close> the single score of \<^verbatim>\<open>predict\<close> is entry \<open>test_item[b]\<close> of the
  example's row of catalogue scores.
\<close>

theorem predict_agrees_with_full_sort:
  assumes "predict forward gather_indexes m item_seq item_seq_len test_item = Inr ps"
    and "forward item_seq item_seq_len = (seq_x, seq_y)"
    and "length seq_x = B" and "length seq_y = B" and "length test_item = B"
    and "map_err (map_err (embedding (item_embedding m))) item_seq = Inr seq_emb"
    and "length (gather_indexes seq_emb (map (\<lambda>l. l - 1) item_seq_len)) = B"
    and "b < B"
  shows "\<exists>fs. full_sort_predict forward gather_indexes m item_seq item_seq_len = Inr fs \<and>
           length ps = B \<and> length fs = B \<and>
           0 \<le> test_item ! b \<and> nat (test_item ! b) < length (fs ! b) \<and>
           ps ! b = [fs ! b ! nat (test_item ! b)]"
proof -
  let ?W = "item_embedding m"
  let ?last = "gather_indexes seq_emb (map (\<lambda>l. l - 1) item_seq_len)"
  from predict_Inr[OF assms(1,2)] assms(6) obtain emb where
    te: "map_err (embedding ?W) test_item = Inr emb"
    and ps: "ps = sum_last (mul3 (cal_final m seq_x seq_y ?last (map (\<lambda>v. [v]) emb))
        (map (\<lambda>v. [v]) emb))"
    by (metis sum.inject(2))
  from map_err_Inr[OF te] assms(5,8) have le: "length emb = B"
    and eb: "embedding ?W (test_item ! b) = Inr (emb ! b)" by simp_all
  from embedding_Inr[OF eb] have t0: "0 \<le> test_item ! b" and tW: "nat (test_item ! b) < length ?W"
    and ev: "emb ! b = ?W ! nat (test_item ! b)" by simp_all
  let ?c1 = "map (\<lambda>v. [v]) emb"
  have c1: "length ?c1 = B" "\<forall>row\<in>set ?c1. length row = 1" using le by auto
  note p = scores_nth[OF assms(3,4,7) c1 assms(8), of 0 m]
  from p(3) ps have "length (ps ! b) = 1" by simp
  moreover from p(1) ps le assms(8)
  have "ps ! b ! 0 = score m (seq_x ! b) (seq_y ! b) (?last ! b) (emb ! b)" by simp
  ultimately have psb: "ps ! b = [score m (seq_x ! b) (seq_y ! b) (?last ! b) (emb ! b)]"
    by (cases "ps ! b") simp_all
  from p(2) ps have lps: "length ps = B" by simp
  let ?c2 = "replicate (length seq_x) ?W"
  let ?fs = "sum_last (mul3 (cal_final m seq_x seq_y ?last ?c2) ?c2)"
  have c2: "length ?c2 = B" "\<forall>row\<in>set ?c2. length row = length ?W" using assms(3) by auto
  note f = scores_nth[OF assms(3,4,7) c2 assms(8) tW, of m]
  have fsd: "full_sort_predict forward gather_indexes m item_seq item_seq_len = Inr ?fs"
    using assms(2,6) by (simp add: full_sort_predict_def Let_def)
  from f(1) assms(3,8) have "?fs ! b ! nat (test_item ! b) =
      score m (seq_x ! b) (seq_y ! b) (?last ! b) (?W ! nat (test_item ! b))" by simp
  with psb ev have eq: "ps ! b = [?fs ! b ! nat (test_item ! b)]" by simp
  from f(3) tW have lt: "nat (test_item ! b) < length (?fs ! b)" by simp
  from fsd lps f(2) t0 lt eq show ?thesis by blast
qed

lemma small_predict:
  "predict small_forward gather_rows small_model [[1]] [1] [1] = Inr [[9]]"
  by (simp add: predict_def small_forward_def gather_rows_def small_model_def embedding_def
      cal_final_def cat1_def cat2_def size1_def unsqueeze1_repeat_def gating_lr_def gating_sig_zero
      dot_def mul3_def mul_bc_def add3_def one_minus_def sum_last_def Let_def)

lemma small_full_sort:
  "full_sort_predict small_forward gather_rows small_model [[1]] [1] = Inr [[0, 9]]"
  by (simp add: full_sort_predict_def small_forward_def gather_rows_def small_model_def embedding_def
      cal_final_def cat1_def cat2_def size1_def unsqueeze1_repeat_def gating_lr_def gating_sig_zero
      dot_def mul3_def mul_bc_def add3_def one_minus_def sum_last_def Let_def)

theorem predict_agrees_with_full_sort_witness:
  "predict small_forward gather_rows small_model [[1]] [1] [1] = Inr [[9]] \<and>
   small_forward [[1]] [1] = ([[2]], [[4]]) \<and>
   map_err (map_err (embedding (item_embedding small_model))) [[1]] = Inr [[[3]]] \<and>
   length (gather_rows [[[3]]] (map (\<lambda>l. l - 1) [1])) = 1 \<and>
   (\<exists>fs. full_sort_predict small_forward gather_rows small_model [[1]] [1] = Inr fs \<and>
      length [[9::real]] = 1 \<and> length fs = 1 \<and>
      0 \<le> [1::int] ! 0 \<and> nat ([1] ! 0) < length (fs ! 0) \<and>
      [[9]] ! 0 = [fs ! 0 ! nat ([1] ! 0)])"
proof -
  have fw: "small_forward [[1]] [1] = ([[2]], [[4]])" by (simp add: small_forward_def)
  have se: "map_err (map_err (embedding (item_embedding small_model))) [[1]] = Inr [[[3]]]"
    by (simp add: small_model_def embedding_def)
  have ga: "length (gather_rows [[[3]]] (map (\<lambda>l. l - 1) [1])) = 1"
    by (simp add: gather_rows_def)
  have l: "length [[2::real]] = 1" "length [[4::real]] = 1" "length [1::int] = 1" "(0::nat) < 1"
    by simp_all
  note th = predict_agrees_with_full_sort[OF small_predict fw l(1,2,3) se ga l(4)]
  from small_predict fw se ga th show ?thesis by (intro conjI) assumption+
qed

subsection \<open>The attention mask\<close>

lemma mask_entry:
  assumes "b < length item_seq" and "k < length (item_seq ! b)"
  shows "broadcast_at (get_attention_mask item_seq) b h q k =
           (if item_seq ! b ! k > 0 then 0 else - 10000)"
  using assms by (simp add: get_attention_mask_def broadcast_at_def Let_def)

lemma mask_shape:
  "length (get_attention_mask item_seq) = length item_seq \<and>
   (\<forall>b<length item_seq. \<exists>row. get_attention_mask item_seq ! b = [[row]] \<and>
       length row = length (item_seq ! b))"
  by (simp add: get_attention_mask_def Let_def)

text \<open>
  Claim C9. For a batch of item ids (none negative), the mask has one \<open>[1, 1, L]\<close> block
  per sequence, and the bias that any head \<open>h\<close> and any query position \<open>q\<close> reads for key
  position \<open>k\<close> is 0 when the item id at \<open>k\<close> is not 0 and -10000 when it is 0. The bias
  does not depend on the head or on the query position, in particular not on whether
  \<open>k\<close> comes after \<open>q\<close>: the mask is not causal.
\<close>

theorem attention_mask_padding:
  assumes "b < length item_seq" and "k < length (item_seq ! b)" and "0 \<le> item_seq ! b ! k"
  shows "length (get_attention_mask item_seq) = length item_seq \<and>
         (\<exists>row. get_attention_mask item_seq ! b = [[row]] \<and> length row = length (item_seq ! b)) \<and>
         broadcast_at (get_attention_mask item_seq) b h q k =
           (if item_seq ! b ! k \<noteq> 0 then 0 else - 10000) \<and>
         broadcast_at (get_attention_mask item_seq) b h q k =
           broadcast_at (get_attention_mask item_seq) b h' q' k"
proof -
  from assms(3) have "(item_seq ! b ! k > 0) = (item_seq ! b ! k \<noteq> 0)" by auto
  with mask_entry[OF assms(1,2)] mask_shape[of item_seq] assms(1) show ?thesis by simp
qed

theorem attention_mask_padding_witness:
  "(0::nat) < length [[3, 7, 0::int]] \<and> (1::nat) < length ([[3, 7, 0::int]] ! 0) \<and>
   0 \<le> [[3, 7, 0::int]] ! 0 ! 1 \<and>
   broadcast_at (get_attention_mask [[3, 7, 0]]) 0 1 0 1 = 0 \<and>
   (2::nat) < length ([[3, 7, 0::int]] ! 0) \<and> 0 \<le> [[3, 7, 0::int]] ! 0 ! 2 \<and>
   broadcast_at (get_attention_mask [[3, 7, 0]]) 0 1 0 2 = - 10000"
  using attention_mask_padding[of 0 "[[3, 7, 0]]" 1 1 0 1 0]
    attention_mask_padding[of 0 "[[3, 7, 0]]" 2 1 0 1 0]
  by simp

end
